theory Spec2Isabelle
  imports Main "HOL-Library.AList"
begin

section \<open>Values, documents and errors\<close>

text \<open>
  Documents are Python dictionaries with string keys, kept as association lists in
  insertion order (the order \<open>dict.items()\<close> iterates in). The values are the ones the
  pipeline can tell apart: \<open>None\<close>, integers, strings, lists and nested documents.
  Only \<open>None\<close>, integers and strings can be dictionary keys.
\<close>

datatype val =
    VNone
  | VInt int
  | VStr string
  | VList "val list"
  | VDoc "(string \<times> val) list"

type_synonym doc = "(string \<times> val) list"

text \<open>Python exceptions as values; \<open>RuntimeError\<close> carries its \<open>__cause__\<close>
  (\<open>raise ... from cause\<close>).\<close>

datatype error =
    KeyError string
  | AttributeError string
  | TypeError string
  | ValueError string
  | AssertionError
  | IOError string
  | WriteError
  | DuplicateKeyError
  | OperationFailure
  | InvalidOperation
  | BulkWriteError
  | RuntimeError string "error option"

fun hashable :: "val \<Rightarrow> bool" where
  "hashable (VList _) = False"
| "hashable (VDoc _) = False"
| "hashable _ = True"

section \<open>Page Buffer: class Embedder\<close>

text \<open>
  \<open>self._embedder\<close> maps a stream identifier to the page being built. What is stored under
  a key of a page has the shape that the key's role fixes (array keys hold a list, dataframe
  keys hold a dictionary of lists, every other key holds the latest value), so a page keeps
  one table per role. The three \<open>defaultdict\<close>s read a missing entry as empty.
\<close>

record page =
  arrays :: "(string \<times> val list) list"
  frames :: "(string \<times> (string \<times> val list) list) list"
  scalars :: "(string \<times> val) list"

record embedder =
  array_keys :: "string list"
  dataframe_keys :: "string list"
  stream_id_key :: string
  max_size :: nat
  pages :: "(val \<times> page) list"
  current_size :: nat
  stream_size :: "(val \<times> nat) list"

definition empty_page :: page where
  "empty_page = \<lparr>arrays = [], frames = [], scalars = []\<rparr>"

definition get_page :: "(val \<times> page) list \<Rightarrow> val \<Rightarrow> page" where
  "get_page ps sid = (case map_of ps sid of None \<Rightarrow> empty_page | Some p \<Rightarrow> p)"

definition get_list :: "('k \<times> 'a list) list \<Rightarrow> 'k \<Rightarrow> 'a list" where
  "get_list m k = (case map_of m k of None \<Rightarrow> [] | Some xs \<Rightarrow> xs)"

definition get_count :: "('k \<times> 'n::zero) list \<Rightarrow> 'k \<Rightarrow> 'n" where
  "get_count m k = (case map_of m k of None \<Rightarrow> 0 | Some n \<Rightarrow> n)"

text \<open>\<open>Embedder.__init__(doc_type, max_size)\<close>.\<close>

definition Embedder_init :: "string \<Rightarrow> nat \<Rightarrow> error + embedder" where
  "Embedder_init doc_type msize =
     (if \<not> (msize \<ge> 1000 \<and> msize \<le> 15000000) then Inl (ValueError ''Invalid max_size'')
      else if doc_type = ''event'' then
        Inr \<lparr>array_keys = [''seq_num'', ''time'', ''uid''],
             dataframe_keys = [''data'', ''timestamps'', ''filled''],
             stream_id_key = ''descriptor'', max_size = msize,
             pages = [], current_size = 0, stream_size = []\<rparr>
      else if doc_type = ''datum'' then
        Inr \<lparr>array_keys = [''datum_id''],
             dataframe_keys = [''datum_kwargs''],
             stream_id_key = ''resource'', max_size = msize,
             pages = [], current_size = 0, stream_size = []\<rparr>
      else Inl (ValueError ''Invalid doc_type''))"

text \<open>\<open>Embedder.dump\<close>: hands out the buffer and the per-stream sizes, and starts afresh.\<close>

definition dump :: "embedder \<Rightarrow> ((val \<times> page) list \<times> (val \<times> nat) list) \<times> embedder" where
  "dump e = ((pages e, stream_size e),
             e\<lparr>pages := [], stream_size := [], current_size := 0\<rparr>)"

text \<open>\<open>Embedder.empty\<close>: \<open>not self.current_size\<close>.\<close>

definition empty_emb :: "embedder \<Rightarrow> bool" where
  "empty_emb e = (current_size e = 0)"

text \<open>
  \<open>self._embedder[doc[self._stream_id_key]]\<close>: the stream identifier of the document
  (\<open>KeyError\<close> when the document has none, \<open>TypeError\<close> when it cannot be a key).
\<close>

definition stream_of :: "embedder \<Rightarrow> doc \<Rightarrow> error + val" where
  "stream_of e d =
     (case map_of d (stream_id_key e) of
        None \<Rightarrow> Inl (KeyError (stream_id_key e))
      | Some sid \<Rightarrow> if hashable sid then Inr sid else Inl (TypeError ''unhashable type''))"

definition upd_page :: "val \<Rightarrow> (page \<Rightarrow> page) \<Rightarrow> embedder \<Rightarrow> embedder" where
  "upd_page sid f e = e\<lparr>pages := AList.update sid (f (get_page (pages e) sid)) (pages e)\<rparr>"

text \<open>The inner loop of the dataframe branch: one append per inner key.\<close>

fun embed_frame :: "doc \<Rightarrow> string \<Rightarrow> (string \<times> val) list \<Rightarrow> embedder \<Rightarrow> (error + unit) \<times> embedder" where
  "embed_frame d key [] e = (Inr (), e)"
| "embed_frame d key ((inner_key, inner_value) # rest) e =
     (case stream_of e d of
        Inl err \<Rightarrow> (Inl err, e)
      | Inr sid \<Rightarrow>
          embed_frame d key rest
            (upd_page sid (\<lambda>p. p\<lparr>frames :=
                AList.update key
                  (AList.update inner_key (get_list (get_list (frames p) key) inner_key @ [inner_value])
                     (get_list (frames p) key))
                  (frames p)\<rparr>) e))"

text \<open>The body of \<open>for key, value in doc.items()\<close>.\<close>

definition embed_item :: "doc \<Rightarrow> string \<Rightarrow> val \<Rightarrow> embedder \<Rightarrow> (error + unit) \<times> embedder" where
  "embed_item d key v e =
     (if key \<in> set (array_keys e) then
        (case stream_of e d of
           Inl err \<Rightarrow> (Inl err, e)
         | Inr sid \<Rightarrow>
             (Inr (), upd_page sid (\<lambda>p. p\<lparr>arrays :=
                 AList.update key (get_list (arrays p) key @ [v]) (arrays p)\<rparr>) e))
      else if key \<in> set (dataframe_keys e) then
        (case map_of d key of
           Some (VDoc inner) \<Rightarrow> embed_frame d key inner e
         | Some _ \<Rightarrow> (Inl (AttributeError ''items''), e)
         | None \<Rightarrow> (Inl (KeyError key), e))
      else
        (case stream_of e d of
           Inl err \<Rightarrow> (Inl err, e)
         | Inr sid \<Rightarrow>
             (Inr (), upd_page sid (\<lambda>p. p\<lparr>scalars := AList.update key v (scalars p)\<rparr>) e)))"

fun embed_items :: "doc \<Rightarrow> (string \<times> val) list \<Rightarrow> embedder \<Rightarrow> (error + unit) \<times> embedder" where
  "embed_items d [] e = (Inr (), e)"
| "embed_items d ((key, v) # rest) e =
     (case embed_item d key v e of
        (Inl err, e') \<Rightarrow> (Inl err, e')
      | (Inr _, e') \<Rightarrow> embed_items d rest e')"

text \<open>
  \<open>Embedder.insert\<close>. The serialized size \<open>len(bson.BSON.encode(doc))\<close> is computed by
  the BSON library; it is the parameter \<open>bson_size\<close>. The result is \<open>Some doc\<close> when the
  document is handed back and \<open>None\<close> when it was embedded.
\<close>

definition insert_doc :: "(doc \<Rightarrow> nat) \<Rightarrow> doc \<Rightarrow> embedder \<Rightarrow> (error + doc option) \<times> embedder" where
  "insert_doc bson_size d e =
     (let doc_size = bson_size d in
      if current_size e + doc_size > max_size e then (Inr (Some d), e)
      else
        (case embed_items d d e of
           (Inl err, e1) \<Rightarrow> (Inl err, e1)
         | (Inr _, e1) \<Rightarrow>
             (let e2 = e1\<lparr>current_size := current_size e1 + doc_size\<rparr> in
              case stream_of e2 d of
                Inl err \<Rightarrow> (Inl err, e2)
              | Inr sid \<Rightarrow>
                  (Inr None,
                   e2\<lparr>stream_size :=
                        AList.update sid (get_count (stream_size e2) sid + doc_size)
                          (stream_size e2)\<rparr>))))"

text \<open>
  What \<open>insert\<close> needs of a document to embed it without raising: a stream identifier that
  can be a dictionary key, and a dictionary under every dataframe key. Validated event and
  datum documents are of this form.
\<close>

definition valid_doc :: "embedder \<Rightarrow> doc \<Rightarrow> bool" where
  "valid_doc e d =
     ((case stream_of e d of Inl _ \<Rightarrow> False | Inr _ \<Rightarrow> True) \<and>
      list_all (\<lambda>(k, v). k \<in> set (array_keys e) \<or> k \<notin> set (dataframe_keys e) \<or>
                  (case map_of d k of Some (VDoc _) \<Rightarrow> True | _ \<Rightarrow> False)) d)"

section \<open>Example inputs\<close>

definition ex_event :: "string \<Rightarrow> int \<Rightarrow> doc" where
  "ex_event descriptor n =
     [(''descriptor'', VStr descriptor), (''seq_num'', VInt n), (''time'', VInt (100 + n)),
      (''uid'', VStr ''ev''), (''data'', VDoc [(''x'', VInt (5 * n))]),
      (''timestamps'', VDoc [(''x'', VInt (100 + n))]), (''filled'', VDoc [])]"

definition ex_embedder :: embedder where
  "ex_embedder =
     \<lparr>array_keys = [''seq_num'', ''time'', ''uid''],
      dataframe_keys = [''data'', ''timestamps'', ''filled''],
      stream_id_key = ''descriptor'', max_size = 1000,
      pages = [], current_size = 0, stream_size = []\<rparr>"

section \<open>The document store\<close>

text \<open>
  The MongoDB collections the pipeline talks to, as an explicit store: a collection is the
  list of its documents in insertion order, with a counter for the identities it hands out.
  A write can fail in the store itself: a collection that is not \<open>writable\<close> (its server
  is not reachable or refuses writes) raises the store's exception on every write.
  The operations are the ones the pipeline calls (\<open>update_one\<close>, \<open>bulk_write\<close>,
  \<open>insert_one\<close>, \<open>find_one\<close>, \<open>find\<close>, \<open>remove\<close>), with the query and update
  operators it uses.
\<close>

record collection =
  docs :: "doc list"
  next_id :: nat
  writable :: bool

record db =
  header_c :: collection
  event_c :: collection
  datum_c :: collection

definition empty_collection :: collection where
  "empty_collection = \<lparr>docs = [], next_id = 0, writable = True\<rparr>"

definition empty_db :: db where
  "empty_db = \<lparr>header_c = empty_collection, event_c = empty_collection,
               datum_c = empty_collection\<rparr>"

text \<open>Queries: \<open>{key: value}\<close> and \<open>{key: {'$lt': n}}\<close>. An equality also holds of an
  array that contains the value, and \<open>None\<close> also holds of a missing field.\<close>

datatype cond = Eq val | Lt int

type_synonym query = "(string \<times> cond) list"

fun holds :: "cond \<Rightarrow> val option \<Rightarrow> bool" where
  "holds (Eq v) None = (v = VNone)"
| "holds (Eq v) (Some x) = (x = v \<or> (case x of VList xs \<Rightarrow> v \<in> set xs | _ \<Rightarrow> False))"
| "holds (Lt n) (Some (VInt m)) = (m < n)"
| "holds (Lt n) _ = False"

definition matches :: "query \<Rightarrow> doc \<Rightarrow> bool" where
  "matches q d = list_all (\<lambda>(k, c). holds c (map_of d k)) q"

text \<open>Update operators: \<open>$push\<close> with \<open>$each\<close>, \<open>$inc\<close>, \<open>$min\<close>, \<open>$max\<close>, \<open>$set\<close>.
  A missing field is created; \<open>$min\<close> and \<open>$max\<close> compare in the store's order of types,
  where \<open>null\<close> is below the numbers and strings, documents and arrays are above them.\<close>

datatype modifier = Push "val list" | Inc int | Min int | Max int | Set val

fun modify :: "modifier \<Rightarrow> val option \<Rightarrow> error + val" where
  "modify (Push vs) None = Inr (VList vs)"
| "modify (Push vs) (Some (VList xs)) = Inr (VList (xs @ vs))"
| "modify (Push vs) (Some _) = Inl WriteError"
| "modify (Inc n) None = Inr (VInt n)"
| "modify (Inc n) (Some (VInt m)) = Inr (VInt (m + n))"
| "modify (Inc n) (Some _) = Inl WriteError"
| "modify (Min n) None = Inr (VInt n)"
| "modify (Min n) (Some (VInt m)) = Inr (VInt (min m n))"
| "modify (Min n) (Some VNone) = Inr VNone"
| "modify (Min n) (Some _) = Inr (VInt n)"
| "modify (Max n) None = Inr (VInt n)"
| "modify (Max n) (Some (VInt m)) = Inr (VInt (max m n))"
| "modify (Max n) (Some VNone) = Inr (VInt n)"
| "modify (Max n) (Some x) = Inr x"
| "modify (Set v) _ = Inr v"

text \<open>A key of an update is a dotted path into nested documents.\<close>

fun split_path :: "string \<Rightarrow> string list" where
  "split_path [] = [[]]"
| "split_path (c # cs) =
     (if c = CHR ''.'' then [] # split_path cs
      else (case split_path cs of [] \<Rightarrow> [[c]] | p # ps \<Rightarrow> (c # p) # ps))"

fun upd_path :: "string list \<Rightarrow> modifier \<Rightarrow> doc \<Rightarrow> error + doc" where
  "upd_path [] m d = Inl WriteError"
| "upd_path [k] m d =
     (case modify m (map_of d k) of
        Inl e \<Rightarrow> Inl e
      | Inr v \<Rightarrow> Inr (AList.update k v d))"
| "upd_path (k # ks) m d =
     (case map_of d k of
        None \<Rightarrow>
          (case upd_path ks m [] of
             Inl e \<Rightarrow> Inl e
           | Inr sub \<Rightarrow> Inr (AList.update k (VDoc sub) d))
      | Some (VDoc sub) \<Rightarrow>
          (case upd_path ks m sub of
             Inl e \<Rightarrow> Inl e
           | Inr sub' \<Rightarrow> Inr (AList.update k (VDoc sub') d))
      | Some _ \<Rightarrow> Inl WriteError)"

type_synonym update = "(string \<times> modifier) list"

fun apply_update :: "update \<Rightarrow> doc \<Rightarrow> error + doc" where
  "apply_update [] d = Inr d"
| "apply_update ((k, m) # u) d =
     (if [] \<in> set (split_path k) then Inl WriteError
      else (case upd_path (split_path k) m d of
              Inl e \<Rightarrow> Inl e
            | Inr d' \<Rightarrow> apply_update u d'))"

text \<open>\<open>update_one(filter, update, upsert)\<close>: the first matching document is updated in
  place; with \<open>upsert\<close> and no match, a new document is made of the equalities of the filter,
  updated and added with a new identity.\<close>

fun update_first :: "query \<Rightarrow> update \<Rightarrow> doc list \<Rightarrow> (error + doc list) option" where
  "update_first q u [] = None"
| "update_first q u (d # ds) =
     (if matches q d then
        Some (case apply_update u d of Inl e \<Rightarrow> Inl e | Inr d' \<Rightarrow> Inr (d' # ds))
      else
        (case update_first q u ds of
           None \<Rightarrow> None
         | Some (Inl e) \<Rightarrow> Some (Inl e)
         | Some (Inr ds') \<Rightarrow> Some (Inr (d # ds'))))"

definition eq_fields :: "query \<Rightarrow> doc" where
  "eq_fields q = concat (map (\<lambda>(k, c). case c of Eq v \<Rightarrow> [(k, v)] | Lt _ \<Rightarrow> []) q)"

definition update_one :: "query \<Rightarrow> update \<Rightarrow> bool \<Rightarrow> collection \<Rightarrow> (error + unit) \<times> collection" where
  "update_one q u upsert c =
     (if \<not> writable c then (Inl OperationFailure, c)
      else
        (case update_first q u (docs c) of
           Some (Inl e) \<Rightarrow> (Inl e, c)
         | Some (Inr ds) \<Rightarrow> (Inr (), c\<lparr>docs := ds\<rparr>)
         | None \<Rightarrow>
             if upsert then
               (case apply_update u ((''_id'', VInt (int (next_id c))) # eq_fields q) of
                  Inl e \<Rightarrow> (Inl e, c)
                | Inr d \<Rightarrow> (Inr (), c\<lparr>docs := docs c @ [d], next_id := Suc (next_id c)\<rparr>))
             else (Inr (), c)))"

record UpdateOne =
  u_filter :: query
  u_update :: update
  u_upsert :: bool

text \<open>\<open>bulk_write(operations, ordered=False)\<close>: every operation is tried; a failure of one
  does not stop the others and is reported at the end.\<close>

fun bulk_apply :: "UpdateOne list \<Rightarrow> collection \<Rightarrow> bool \<times> collection" where
  "bulk_apply [] c = (True, c)"
| "bulk_apply (u # us) c =
     (case update_one (u_filter u) (u_update u) (u_upsert u) c of
        (Inl e, c') \<Rightarrow> (False, snd (bulk_apply us c'))
      | (Inr _, c') \<Rightarrow> bulk_apply us c')"

definition bulk_write :: "UpdateOne list \<Rightarrow> collection \<Rightarrow> (error + unit) \<times> collection" where
  "bulk_write operations c =
     (if operations = [] then (Inl InvalidOperation, c)
      else (case bulk_apply operations c of
              (True, c') \<Rightarrow> (Inr (), c')
            | (False, c') \<Rightarrow> (Inl BulkWriteError, c')))"

text \<open>\<open>find_one(filter, {'_id': False})\<close> and \<open>find(filter, {'_id': False})\<close>.\<close>

definition find :: "query \<Rightarrow> collection \<Rightarrow> doc list" where
  "find q c = map (AList.delete ''_id'') (filter (matches q) (docs c))"

definition find_one :: "query \<Rightarrow> collection \<Rightarrow> doc option" where
  "find_one q c = (case find q c of [] \<Rightarrow> None | d # _ \<Rightarrow> Some d)"

text \<open>\<open>remove(filter)\<close> deletes every matching document.\<close>

definition remove :: "query \<Rightarrow> collection \<Rightarrow> (error + unit) \<times> collection" where
  "remove q c =
     (if \<not> writable c then (Inl OperationFailure, c)
      else (Inr (), c\<lparr>docs := filter (\<lambda>d. \<not> matches q d) (docs c)\<rparr>))"

text \<open>\<open>insert_one(doc)\<close>: a document without identity gets a new one; an identity that is
  already in the collection is refused.\<close>

definition insert_one :: "doc \<Rightarrow> collection \<Rightarrow> (error + unit) \<times> collection" where
  "insert_one d c =
     (if \<not> writable c then (Inl OperationFailure, c)
      else
        (case map_of d ''_id'' of
           None \<Rightarrow> (Inr (), c\<lparr>docs := docs c @ [(''_id'', VInt (int (next_id c))) # d],
                             next_id := Suc (next_id c)\<rparr>)
         | Some i \<Rightarrow>
             if list_ex (\<lambda>x. map_of x ''_id'' = Some i) (docs c) then (Inl DuplicateKeyError, c)
             else (Inr (), c\<lparr>docs := docs c @ [d]\<rparr>)))"

section \<open>The pipeline: class Serializer\<close>

text \<open>
  What travels through a queue: a document, or the \<open>False\<close> that tells the worker to finish.
\<close>

datatype item = Stop | Doc doc

text \<open>
  The attributes of a \<open>Serializer\<close>. The counters \<open>self._db_event_count\<close> and
  \<open>self._db_datum_count\<close> are dictionaries that the count worker also holds references to,
  so they live in an explicit store of dictionaries (\<open>heap\<close>, from addresses to
  dictionaries) and the attributes are their addresses.
\<close>

record serializer =
  QUEUE_SIZE :: nat
  EMBED_SIZE :: nat
  PAGE_SIZE :: int
  MAX_INSERT :: nat
  permanent_db :: db
  volatile_db :: db
  event_queue :: "item list"
  datum_queue :: "item list"
  event_embedder :: embedder
  datum_embedder :: embedder
  start_found :: bool
  run_uid :: val
  frozen :: bool
  worker_error :: "error option"
  stop_doc :: val
  event_count :: "(val \<times> int) list"
  datum_count :: "(val \<times> int) list"
  heap :: "(nat \<times> (string \<times> int) list) list"
  heap_next :: nat
  db_event_count :: nat
  db_datum_count :: nat

text \<open>\<open>Serializer.__init__\<close>, up to the start of the workers.\<close>

definition Serializer_init :: "db \<Rightarrow> db \<Rightarrow> int \<Rightarrow> nat \<Rightarrow> nat \<Rightarrow> int \<Rightarrow> nat \<Rightarrow> error + serializer" where
  "Serializer_init volatile permanent num_threads queue_size embedder_size page_size max_insert_time =
     (if num_threads > 10 \<or> num_threads < 1 then Inl (ValueError ''num_threads'')
      else if page_size < 1000 then Inl (ValueError ''page_size'')
      else if int embedder_size + page_size > 15000000 then Inl (ValueError ''embedder_size'')
      else
        (case Embedder_init ''event'' embedder_size of
           Inl e \<Rightarrow> Inl e
         | Inr ee \<Rightarrow>
             (case Embedder_init ''datum'' embedder_size of
                Inl e \<Rightarrow> Inl e
              | Inr de \<Rightarrow>
                  Inr \<lparr>QUEUE_SIZE = queue_size, EMBED_SIZE = embedder_size,
                       PAGE_SIZE = page_size, MAX_INSERT = max_insert_time,
                       permanent_db = permanent, volatile_db = volatile,
                       event_queue = [], datum_queue = [],
                       event_embedder = ee, datum_embedder = de,
                       start_found = False, run_uid = VNone, frozen = False,
                       worker_error = None, stop_doc = VNone,
                       event_count = [], datum_count = [],
                       heap = [(0, []), (1, [])], heap_next = 2,
                       db_event_count = 0, db_datum_count = 1\<rparr>)))"

subsection \<open>Header updates\<close>

text \<open>\<open>_insert_header\<close>: \<open>$push\<close> of the document under \<open>name\<close>, with upsert.\<close>

definition insert_header :: "string \<Rightarrow> val \<Rightarrow> serializer \<Rightarrow> (error + unit) \<times> serializer" where
  "insert_header name d s =
     (case update_one [(''run_id'', Eq (run_uid s))] [(name, Push [d])] True
             (header_c (volatile_db s)) of
        (r, c) \<Rightarrow> (r, s\<lparr>volatile_db := (volatile_db s)\<lparr>header_c := c\<rparr>\<rparr>))"

text \<open>\<open>_set_header\<close>: \<open>$set\<close> of \<open>name\<close>, without upsert.\<close>

definition set_header :: "string \<Rightarrow> val \<Rightarrow> serializer \<Rightarrow> (error + unit) \<times> serializer" where
  "set_header name d s =
     (case update_one [(''run_id'', Eq (run_uid s))] [(name, Set d)] False
             (header_c (volatile_db s)) of
        (r, c) \<Rightarrow> (r, s\<lparr>volatile_db := (volatile_db s)\<lparr>header_c := c\<rparr>\<rparr>))"

subsection \<open>Page Writer\<close>

text \<open>\<open>_updateone_eventpage\<close>: advances the counter of the stream by the number of
  documents of the page and builds the append-or-create update.\<close>

definition updateone_eventpage :: "val \<Rightarrow> page \<Rightarrow> nat \<Rightarrow> serializer \<Rightarrow> UpdateOne \<times> serializer" where
  "updateone_eventpage descriptor_id event_page sz s =
     (let event_size = int sz;
          data_string = map (\<lambda>(key, value_array). (''data.'' @ key, Push value_array))
                          (get_list (frames event_page) ''data'');
          timestamp_string = map (\<lambda>(key, value_array). (''timestamps.'' @ key, Push value_array))
                          (get_list (frames event_page) ''timestamps'');
          filled_string = map (\<lambda>(key, value_array). (''filled.'' @ key, Push value_array))
                          (get_list (frames event_page) ''filled'');
          update_string = data_string @ timestamp_string @ filled_string;
          count = int (length (get_list (arrays event_page) ''seq_num''));
          s' = s\<lparr>event_count :=
                  AList.update descriptor_id (get_count (event_count s) descriptor_id + count)
                    (event_count s)\<rparr>
      in (\<lparr>u_filter = [(''descriptor'', Eq descriptor_id), (''size'', Lt (PAGE_SIZE s'))],
           u_update =
             [(''uid'', Push (get_list (arrays event_page) ''uid'')),
              (''time'', Push (get_list (arrays event_page) ''time'')),
              (''seq_num'', Push (get_list (arrays event_page) ''seq_num''))]
             @ update_string
             @ [(''size'', Inc event_size),
                (''first_index'', Min (get_count (event_count s') descriptor_id - count)),
                (''last_index'', Max (get_count (event_count s') descriptor_id - 1))],
           u_upsert = True\<rparr>, s'))"

text \<open>\<open>_updateone_datumpage\<close>.\<close>

definition updateone_datumpage :: "val \<Rightarrow> page \<Rightarrow> nat \<Rightarrow> serializer \<Rightarrow> UpdateOne \<times> serializer" where
  "updateone_datumpage resource_id datum_page sz s =
     (let datum_size = int sz;
          kwargs_string = map (\<lambda>(key, value_array). (''datum_kwargs.'' @ key, Push value_array))
                          (get_list (frames datum_page) ''datum_kwargs'');
          count = int (length (get_list (arrays datum_page) ''datum_id''));
          s' = s\<lparr>datum_count :=
                  AList.update resource_id (get_count (datum_count s) resource_id + count)
                    (datum_count s)\<rparr>
      in (\<lparr>u_filter = [(''resource'', Eq resource_id), (''size'', Lt (PAGE_SIZE s'))],
           u_update =
             [(''datum_id'', Push (get_list (arrays datum_page) ''datum_id''))]
             @ kwargs_string
             @ [(''size'', Inc datum_size),
                (''first_index'', Min (get_count (datum_count s') resource_id - count)),
                (''last_index'', Max (get_count (datum_count s') resource_id - 1))],
           u_upsert = True\<rparr>, s'))"

text \<open>The list comprehensions of \<open>_bulkwrite_event\<close> and \<open>_bulkwrite_datum\<close>: one operation
  per stream of the buffer, \<open>KeyError\<close> when \<open>dump_sizes\<close> has no size for a stream.\<close>

fun event_operations :: "(val \<times> page) list \<Rightarrow> (val \<times> nat) list \<Rightarrow> serializer
      \<Rightarrow> (error + UpdateOne list) \<times> serializer" where
  "event_operations [] dump_sizes s = (Inr [], s)"
| "event_operations ((descriptor, event_page) # rest) dump_sizes s =
     (case map_of dump_sizes descriptor of
        None \<Rightarrow> (Inl (KeyError ''dump_sizes''), s)
      | Some sz \<Rightarrow>
          (case updateone_eventpage descriptor event_page sz s of
             (u, s1) \<Rightarrow>
               (case event_operations rest dump_sizes s1 of
                  (Inl e, s2) \<Rightarrow> (Inl e, s2)
                | (Inr us, s2) \<Rightarrow> (Inr (u # us), s2))))"

fun datum_operations :: "(val \<times> page) list \<Rightarrow> (val \<times> nat) list \<Rightarrow> serializer
      \<Rightarrow> (error + UpdateOne list) \<times> serializer" where
  "datum_operations [] dump_sizes s = (Inr [], s)"
| "datum_operations ((resource, datum_page) # rest) dump_sizes s =
     (case map_of dump_sizes resource of
        None \<Rightarrow> (Inl (KeyError ''dump_sizes''), s)
      | Some sz \<Rightarrow>
          (case updateone_datumpage resource datum_page sz s of
             (u, s1) \<Rightarrow>
               (case datum_operations rest dump_sizes s1 of
                  (Inl e, s2) \<Rightarrow> (Inl e, s2)
                | (Inr us, s2) \<Rightarrow> (Inr (u # us), s2))))"

text \<open>
  \<open>_bulkwrite_event(event_buffer, dump_sizes)\<close> and \<open>_bulkwrite_datum(datum_buffer,
  dump_sizes)\<close>. Both parameters are required: a call that passes no \<open>dump_sizes\<close>
  (the argument is \<open>None\<close> here) is a \<open>TypeError\<close> before the body runs.
\<close>

definition bulkwrite_event :: "(val \<times> page) list \<Rightarrow> (val \<times> nat) list option \<Rightarrow> serializer
      \<Rightarrow> (error + unit) \<times> serializer" where
  "bulkwrite_event event_buffer dump_sizes_arg s =
     (case dump_sizes_arg of
        None \<Rightarrow> (Inl (TypeError ''missing 1 required positional argument: dump_sizes''), s)
      | Some dump_sizes \<Rightarrow>
          (case event_operations event_buffer dump_sizes s of
             (Inl e, s1) \<Rightarrow> (Inl e, s1)
           | (Inr operations, s1) \<Rightarrow>
               (case bulk_write operations (event_c (volatile_db s1)) of
                  (r, c) \<Rightarrow> (r, s1\<lparr>volatile_db := (volatile_db s1)\<lparr>event_c := c\<rparr>\<rparr>))))"

definition bulkwrite_datum :: "(val \<times> page) list \<Rightarrow> (val \<times> nat) list option \<Rightarrow> serializer
      \<Rightarrow> (error + unit) \<times> serializer" where
  "bulkwrite_datum datum_buffer dump_sizes_arg s =
     (case dump_sizes_arg of
        None \<Rightarrow> (Inl (TypeError ''missing 1 required positional argument: dump_sizes''), s)
      | Some dump_sizes \<Rightarrow>
          (case datum_operations datum_buffer dump_sizes s of
             (Inl e, s1) \<Rightarrow> (Inl e, s1)
           | (Inr operations, s1) \<Rightarrow>
               (case bulk_write operations (datum_c (volatile_db s1)) of
                  (r, c) \<Rightarrow> (r, s1\<lparr>volatile_db := (volatile_db s1)\<lparr>datum_c := c\<rparr>\<rparr>))))"

section \<open>Index bookkeeping of the pages\<close>

text \<open>
  The notions the properties of the Page Writer are stated with: the pages of a stream in
  a collection, the range of indices a page records, and the chain that the ranges of the
  pages of a stream form, each page starting where the one before ended.
\<close>

definition top_key :: "string \<Rightarrow> string" where
  "top_key k = hd (split_path k)"

definition pages_of :: "string \<Rightarrow> val \<Rightarrow> doc list \<Rightarrow> doc list" where
  "pages_of key d ds = filter (matches [(key, Eq d)]) ds"

definition is_open :: "int \<Rightarrow> doc \<Rightarrow> bool" where
  "is_open PS p = holds (Lt PS) (map_of p ''size'')"

fun pages_chain :: "string \<Rightarrow> val \<Rightarrow> int \<Rightarrow> int \<Rightarrow> doc list \<Rightarrow> int \<Rightarrow> bool" where
  "pages_chain key d PS a [] n = (a = n)"
| "pages_chain key d PS a (p # ps) n =
     (case (map_of p ''first_index'', map_of p ''last_index'') of
        (Some (VInt a'), Some (VInt b)) \<Rightarrow>
           a' = a \<and> a \<le> b + 1 \<and> map_of p key = Some d \<and> (ps = [] \<or> \<not> is_open PS p) \<and>
           pages_chain key d PS (b + 1) ps n
      | _ \<Rightarrow> False)"

definition index_op :: "string \<Rightarrow> val \<Rightarrow> int \<Rightarrow> int \<Rightarrow> int \<Rightarrow> UpdateOne \<Rightarrow> bool" where
  "index_op key d PS lo hi u =
     (u_filter u = [(key, Eq d), (''size'', Lt PS)] \<and> u_upsert u \<and>
      (\<exists>pushes sz. u_update u = pushes @ [(''size'', Inc sz), (''first_index'', Min lo), (''last_index'', Max hi)] \<and>
         (\<forall>km \<in> set pushes. top_key (fst km) \<notin> {key, ''size'', ''first_index'', ''last_index''})))"

fun ops_chain :: "string \<Rightarrow> val \<Rightarrow> int \<Rightarrow> int \<Rightarrow> UpdateOne list \<Rightarrow> int \<Rightarrow> bool" where
  "ops_chain key d PS lo [] n = (lo = n)"
| "ops_chain key d PS lo (u # us) n =
     (\<exists>d' lo' hi. index_op key d' PS lo' hi u \<and> hashable d' \<and> lo' \<le> hi + 1 \<and>
        (if d' = d then lo' = lo \<and> ops_chain key d PS (hi + 1) us n
         else ops_chain key d PS lo us n))"

definition index_range :: "doc \<Rightarrow> int set" where
  "index_range p =
     (case (map_of p ''first_index'', map_of p ''last_index'') of
        (Some (VInt a), Some (VInt b)) \<Rightarrow> {a..b}
      | _ \<Rightarrow> {})"

definition has_indices :: "doc \<Rightarrow> bool" where
  "has_indices p =
     (case (map_of p ''first_index'', map_of p ''last_index'') of
        (Some (VInt a), Some (VInt b)) \<Rightarrow> True
      | _ \<Rightarrow> False)"

definition batch_count :: "string \<Rightarrow> val \<Rightarrow> ((val \<times> page) list \<times> (val \<times> nat) list) list \<Rightarrow> int" where
  "batch_count key d batches =
     (\<Sum>(buf, sizes) \<leftarrow> batches. \<Sum>(k, p) \<leftarrow> buf.
         if k = d then int (length (get_list (arrays p) key)) else 0)"

fun run_event_batches :: "((val \<times> page) list \<times> (val \<times> nat) list) list \<Rightarrow> serializer
      \<Rightarrow> (error + unit) \<times> serializer" where
  "run_event_batches [] s = (Inr (), s)"
| "run_event_batches ((buf, sizes) # bs) s =
     (case bulkwrite_event buf (Some sizes) s of
        (Inl e, s') \<Rightarrow> (Inl e, s')
      | (Inr _, s') \<Rightarrow> run_event_batches bs s')"

definition buf_count :: "string \<Rightarrow> val \<Rightarrow> (val \<times> page) list \<Rightarrow> int" where
  "buf_count key d buf =
     (\<Sum>(k, p) \<leftarrow> buf. if k = d then int (length (get_list (arrays p) key)) else 0)"

fun run_datum_batches :: "((val \<times> page) list \<times> (val \<times> nat) list) list \<Rightarrow> serializer
      \<Rightarrow> (error + unit) \<times> serializer" where
  "run_datum_batches [] s = (Inr (), s)"
| "run_datum_batches ((buf, sizes) # bs) s =
     (case bulkwrite_datum buf (Some sizes) s of
        (Inl e, s') \<Rightarrow> (Inl e, s')
      | (Inr _, s') \<Rightarrow> run_datum_batches bs s')"

definition covers :: "doc list \<Rightarrow> int \<Rightarrow> bool" where
  "covers ps N =
     ((\<Union>p \<in> set ps. index_range p) = {0..<N} \<and>
      (\<forall>p \<in> set ps. has_indices p) \<and>
      (\<forall>i < length ps. \<forall>j < length ps. i \<noteq> j \<longrightarrow> index_range (ps ! i) \<inter> index_range (ps ! j) = {}))"

definition ex_datum_embedder :: embedder where
  "ex_datum_embedder =
     \<lparr>array_keys = [''datum_id''], dataframe_keys = [''datum_kwargs''],
      stream_id_key = ''resource'', max_size = 1000,
      pages = [], current_size = 0, stream_size = []\<rparr>"

definition ex_serializer :: serializer where
  "ex_serializer =
     \<lparr>QUEUE_SIZE = 20, EMBED_SIZE = 1000, PAGE_SIZE = 1000, MAX_INSERT = 10,
      permanent_db = empty_db, volatile_db = empty_db,
      event_queue = [], datum_queue = [],
      event_embedder = ex_embedder, datum_embedder = ex_datum_embedder,
      start_found = False, run_uid = VNone, frozen = False,
      worker_error = None, stop_doc = VNone,
      event_count = [], datum_count = [],
      heap = [(0, []), (1, [])], heap_next = 2,
      db_event_count = 0, db_datum_count = 1\<rparr>"

definition ex_event_page :: "int list \<Rightarrow> page" where
  "ex_event_page ns =
     \<lparr>arrays = [(''seq_num'', map VInt ns), (''time'', map VInt ns), (''uid'', map (\<lambda>n. VStr ''ev'') ns)],
      frames = [(''data'', [(''x'', map VInt ns)]), (''timestamps'', [(''x'', map VInt ns)])],
      scalars = [(''descriptor'', VStr ''d1'')]\<rparr>"

definition ex_event_batches :: "((val \<times> page) list \<times> (val \<times> nat) list) list" where
  "ex_event_batches =
     [([(VStr ''d1'', ex_event_page [1, 2])], [(VStr ''d1'', 600)]),
      ([(VStr ''d1'', ex_event_page [3])], [(VStr ''d1'', 600)]),
      ([(VStr ''d1'', ex_event_page [4, 5])], [(VStr ''d1'', 600)])]"

definition ex_datum_page :: "string list \<Rightarrow> page" where
  "ex_datum_page ids =
     \<lparr>arrays = [(''datum_id'', map VStr ids)],
      frames = [(''datum_kwargs'', [(''frame'', map (\<lambda>i. VInt 0) ids)])],
      scalars = [(''resource'', VStr ''r1'')]\<rparr>"

definition ex_datum_batches :: "((val \<times> page) list \<times> (val \<times> nat) list) list" where
  "ex_datum_batches =
     [([(VStr ''r1'', ex_datum_page [''r1/0''])], [(VStr ''r1'', 1000)]),
      ([(VStr ''r1'', ex_datum_page [''r1/1'', ''r1/2''])], [(VStr ''r1'', 300)])]"

subsection \<open>Handlers of the ingestion boundary\<close>

text \<open>Sequencing of two steps that may raise: an exception ends the sequence and keeps the
  state reached.\<close>

definition seq :: "('s \<Rightarrow> (error + 'a) \<times> 's) \<Rightarrow> ('a \<Rightarrow> 's \<Rightarrow> (error + 'b) \<times> 's)
      \<Rightarrow> 's \<Rightarrow> (error + 'b) \<times> 's" where
  "seq m f s = (case m s of (Inl e, s') \<Rightarrow> (Inl e, s') | (Inr x, s') \<Rightarrow> f x s')"

definition two_starts :: error where
  "two_starts = RuntimeError ''The serializer in suitcase-mongo expects documents from one run only. Two start documents were received.'' None"

definition check_start :: "doc \<Rightarrow> serializer \<Rightarrow> (error + unit) \<times> serializer" where
  "check_start d s =
     (if start_found s then (Inl two_starts, s)
      else (Inr (), s\<lparr>start_found := True\<rparr>))"

definition start :: "doc \<Rightarrow> serializer \<Rightarrow> (error + doc) \<times> serializer" where
  "start d =
     seq (check_start d) (\<lambda>_.
     seq (\<lambda>s. case map_of d ''uid'' of
                 None \<Rightarrow> (Inl (KeyError ''uid''), s)
               | Some uid \<Rightarrow> (Inr (), s\<lparr>run_uid := uid\<rparr>)) (\<lambda>_.
     seq (insert_header ''start'' (VDoc d)) (\<lambda>_.
     seq (insert_header ''event_count'' (VDoc d)) (\<lambda>_.
     seq (insert_header ''datum_count'' (VDoc d)) (\<lambda>_ s. (Inr d, s))))))"

definition descriptor :: "doc \<Rightarrow> serializer \<Rightarrow> (error + doc) \<times> serializer" where
  "descriptor d = seq (insert_header ''descriptors'' (VDoc d)) (\<lambda>_ s. (Inr d, s))"

definition resource :: "doc \<Rightarrow> serializer \<Rightarrow> (error + doc) \<times> serializer" where
  "resource d = seq (insert_header ''resources'' (VDoc d)) (\<lambda>_ s. (Inr d, s))"




text \<open>
  A page document read as a page of the buffer: its lists are the arrays, its dictionaries
  of lists the dataframes. It is the value of the dictionary \<open>{doc['descriptor']: doc}\<close>
  that \<open>event_page\<close> and \<open>datum_page\<close> build.
\<close>

definition doc_as_page :: "doc \<Rightarrow> page" where
  "doc_as_page d =
     \<lparr>arrays = concat (map (\<lambda>(k, v). case v of VList xs \<Rightarrow> [(k, xs)] | _ \<Rightarrow> []) d),
      frames = concat (map (\<lambda>(k, v). case v of
                  VDoc inner \<Rightarrow>
                    [(k, concat (map (\<lambda>(ik, iv). case iv of VList ys \<Rightarrow> [(ik, ys)] | _ \<Rightarrow> []) inner))]
                | _ \<Rightarrow> []) d),
      scalars = d\<rparr>"

text \<open>\<open>event_page\<close> and \<open>datum_page\<close>: the call of the Page Writer passes the buffer only.\<close>

definition event_page :: "doc \<Rightarrow> serializer \<Rightarrow> (error + doc) \<times> serializer" where
  "event_page d s =
     (case map_of d ''descriptor'' of
        None \<Rightarrow> (Inl (KeyError ''descriptor''), s)
      | Some k \<Rightarrow>
          if \<not> hashable k then (Inl (TypeError ''unhashable type''), s)
          else seq (bulkwrite_event [(k, doc_as_page d)] None) (\<lambda>_ s'. (Inr d, s')) s)"

definition datum_page :: "doc \<Rightarrow> serializer \<Rightarrow> (error + doc) \<times> serializer" where
  "datum_page d s =
     (case map_of d ''resource'' of
        None \<Rightarrow> (Inl (KeyError ''resource''), s)
      | Some k \<Rightarrow>
          if \<not> hashable k then (Inl (TypeError ''unhashable type''), s)
          else seq (bulkwrite_datum [(k, doc_as_page d)] None) (\<lambda>_ s'. (Inr d, s')) s)"

definition ex_start :: doc where
  "ex_start = [(''uid'', VStr ''run1''), (''time'', VInt 100), (''scan_id'', VInt 1)]"

definition ex_event_page_doc :: doc where
  "ex_event_page_doc =
     [(''descriptor'', VStr ''d1''), (''uid'', VList [VStr ''ev'']), (''time'', VList [VInt 101]),
      (''seq_num'', VList [VInt 1]), (''data'', VDoc [(''x'', VList [VInt 5])]),
      (''timestamps'', VDoc [(''x'', VList [VInt 101])]), (''filled'', VDoc [])]"

definition ex_datum_page_doc :: doc where
  "ex_datum_page_doc =
     [(''resource'', VStr ''r1''), (''datum_id'', VList [VStr ''r1/0'']),
      (''datum_kwargs'', VDoc [(''frame'', VList [VInt 0])])]"

subsection \<open>Stream Workers\<close>

text \<open>
  The counting after a flush of the event worker:
  \<open>self._db_event_count['count_' + descriptor] += len(event_page['seq_num'])\<close> for every
  stream of the dump. The concatenation needs a string.
\<close>

fun add_db_event_counts :: "(val \<times> page) list \<Rightarrow> serializer \<Rightarrow> (error + unit) \<times> serializer" where
  "add_db_event_counts [] s = (Inr (), s)"
| "add_db_event_counts ((descriptor_id, page_buf) # rest) s =
     (case descriptor_id of
        VStr name \<Rightarrow>
          add_db_event_counts rest
            (s\<lparr>heap := AList.update (db_event_count s)
                 (AList.update (''count_'' @ name)
                    (get_count (get_list (heap s) (db_event_count s)) (''count_'' @ name)
                       + int (length (get_list (arrays page_buf) ''seq_num'')))
                    (get_list (heap s) (db_event_count s)))
                 (heap s)\<rparr>)
      | _ \<Rightarrow> (Inl (TypeError ''can only concatenate str''), s))"

fun add_db_datum_counts :: "(val \<times> page) list \<Rightarrow> serializer \<Rightarrow> (error + unit) \<times> serializer" where
  "add_db_datum_counts [] s = (Inr (), s)"
| "add_db_datum_counts ((resource_id, page_buf) # rest) s =
     (case resource_id of
        VStr name \<Rightarrow>
          add_db_datum_counts rest
            (s\<lparr>heap := AList.update (db_datum_count s)
                 (AList.update (''count_'' @ name)
                    (get_count (get_list (heap s) (db_datum_count s)) (''count_'' @ name)
                       + int (length (get_list (arrays page_buf) ''datum_id'')))
                    (get_list (heap s) (db_datum_count s)))
                 (heap s)\<rparr>)
      | _ \<Rightarrow> (Inl (TypeError ''can only concatenate str''), s))"

text \<open>The flush of the event worker: \<open>if not self._event_embedder.empty(): ...\<close>.\<close>

definition event_flush :: "serializer \<Rightarrow> (error + unit) \<times> serializer" where
  "event_flush s =
     (if \<not> empty_emb (event_embedder s) then
        (case dump (event_embedder s) of
           ((event_dump, dump_sizes), e') \<Rightarrow>
             seq (bulkwrite_event event_dump (Some dump_sizes))
               (\<lambda>_. add_db_event_counts event_dump)
               (s\<lparr>event_embedder := e'\<rparr>))
      else (Inr (), s))"

text \<open>
  The flush of the datum worker. Its call reads
  \<open>self._bulkwrite_datum(datum_dump. dump_sizes)\<close>: the argument is the attribute
  \<open>dump_sizes\<close> of the dictionary \<open>datum_dump\<close>, and it is the only argument.
  \<open>dict_attributes\<close> are the attributes a \<open>defaultdict\<close> has.
\<close>

definition dict_attributes :: "string list" where
  "dict_attributes =
     [''clear'', ''copy'', ''default_factory'', ''fromkeys'', ''get'', ''items'', ''keys'',
      ''pop'', ''popitem'', ''setdefault'', ''update'', ''values'']"

definition datum_flush :: "serializer \<Rightarrow> (error + unit) \<times> serializer" where
  "datum_flush s =
     (if \<not> empty_emb (datum_embedder s) then
        (case dump (datum_embedder s) of
           ((datum_dump, dump_sizes), e') \<Rightarrow>
             (let s1 = s\<lparr>datum_embedder := e'\<rparr> in
              if ''dump_sizes'' \<notin> set dict_attributes then (Inl (AttributeError ''dump_sizes''), s1)
              else seq (bulkwrite_datum datum_dump None)
                     (\<lambda>_. add_db_datum_counts datum_dump) s1))
      else (Inr (), s))"

text \<open>
  One iteration of \<open>while event is not False\<close>. The variable \<open>event\<close> is \<open>None\<close>, the
  sentinel or a document that the buffer handed back. \<open>queue.get(timeout=0.5)\<close> on an empty
  queue raises \<open>queue.Empty\<close>. The outcome of the comparison
  \<open>time.monotonic() > last_push + self._MAX_INSERT\<close> is the input \<open>elapsed\<close>.
\<close>

definition event_worker_body :: "(doc \<Rightarrow> nat) \<Rightarrow> bool \<Rightarrow> item option \<Rightarrow> serializer
      \<Rightarrow> (error + item option) \<times> serializer" where
  "event_worker_body bson_size elapsed event0 s =
     (case (case event0 of
              None \<Rightarrow> (case event_queue s of
                          [] \<Rightarrow> (None, True, s)
                        | x # q \<Rightarrow> (Some x, False, s\<lparr>event_queue := q\<rparr>))
            | Some x \<Rightarrow> (Some x, False, s)) of
        (event1, do_push, s1) \<Rightarrow>
          seq (\<lambda>s. if do_push then (Inr event1, s)
                    else (case event1 of
                            Some (Doc d) \<Rightarrow>
                              (case insert_doc bson_size d (event_embedder s) of
                                 (Inl e, em) \<Rightarrow> (Inl e, s\<lparr>event_embedder := em\<rparr>)
                               | (Inr r, em) \<Rightarrow> (Inr (map_option Doc r), s\<lparr>event_embedder := em\<rparr>))
                          | _ \<Rightarrow> (Inr event1, s)))
              (\<lambda>event2.
                 if event2 \<noteq> None \<or> event2 = Some Stop \<or> do_push \<or> elapsed
                 then seq event_flush (\<lambda>_ s. (Inr event2, s))
                 else (\<lambda>s. (Inr event2, s)))
              s1)"

definition datum_worker_body :: "(doc \<Rightarrow> nat) \<Rightarrow> bool \<Rightarrow> item option \<Rightarrow> serializer
      \<Rightarrow> (error + item option) \<times> serializer" where
  "datum_worker_body bson_size elapsed datum0 s =
     (case (case datum0 of
              None \<Rightarrow> (case datum_queue s of
                          [] \<Rightarrow> (None, True, s)
                        | x # q \<Rightarrow> (Some x, False, s\<lparr>datum_queue := q\<rparr>))
            | Some x \<Rightarrow> (Some x, False, s)) of
        (datum1, do_push, s1) \<Rightarrow>
          seq (\<lambda>s. if do_push then (Inr datum1, s)
                    else (case datum1 of
                            Some (Doc d) \<Rightarrow>
                              (case insert_doc bson_size d (datum_embedder s) of
                                 (Inl e, em) \<Rightarrow> (Inl e, s\<lparr>datum_embedder := em\<rparr>)
                               | (Inr r, em) \<Rightarrow> (Inr (map_option Doc r), s\<lparr>datum_embedder := em\<rparr>))
                          | _ \<Rightarrow> (Inr datum1, s)))
              (\<lambda>datum2.
                 if datum2 \<noteq> None \<or> datum2 = Some Stop \<or> do_push \<or> elapsed
                 then seq datum_flush (\<lambda>_ s. (Inr datum2, s))
                 else (\<lambda>s. (Inr datum2, s)))
              s1)"

text \<open>
  The loops. What the other threads do between two iterations is the environment: the
  documents put on the queue before the iteration and the outcome of the time comparison.
  A loop that never ends has the value \<open>None\<close>.
\<close>

partial_function (option) event_worker_loop :: "(doc \<Rightarrow> nat) \<Rightarrow> (nat \<Rightarrow> item list \<times> bool) \<Rightarrow> nat
      \<Rightarrow> item option \<Rightarrow> serializer \<Rightarrow> ((error + unit) \<times> serializer) option" where
  "event_worker_loop bson_size env i event0 s =
     (if event0 = Some Stop then Some (Inr (), s)
      else
        (case event_worker_body bson_size (snd (env i)) event0
                (s\<lparr>event_queue := event_queue s @ fst (env i)\<rparr>) of
           (Inl e, s') \<Rightarrow> Some (Inl e, s')
         | (Inr event1, s') \<Rightarrow> event_worker_loop bson_size env (Suc i) event1 s'))"


text \<open>\<open>_try_wrapper\<close>: an exception that leaves the worker is kept as the sticky error.\<close>

definition try_wrapper :: "(serializer \<Rightarrow> ((error + unit) \<times> serializer) option)
      \<Rightarrow> serializer \<Rightarrow> ((error + unit) \<times> serializer) option" where
  "try_wrapper f s =
     (case f s of
        None \<Rightarrow> None
      | Some (Inl err, s') \<Rightarrow> Some (Inl err, s'\<lparr>worker_error := Some err\<rparr>)
      | Some (Inr x, s') \<Rightarrow> Some (Inr x, s'))"



text \<open>The first \<open>n\<close> iterations of the loop of the event worker, for the properties that
  hold at every iteration.\<close>

fun event_worker_steps :: "(doc \<Rightarrow> nat) \<Rightarrow> (nat \<Rightarrow> item list \<times> bool) \<Rightarrow> nat \<Rightarrow> nat
      \<Rightarrow> item option \<Rightarrow> serializer \<Rightarrow> (error + item option) \<times> serializer" where
  "event_worker_steps bson_size env i 0 event0 s = (Inr event0, s)"
| "event_worker_steps bson_size env i (Suc n) event0 s =
     (if event0 = Some Stop then (Inr event0, s)
      else
        (case event_worker_body bson_size (snd (env i)) event0
                (s\<lparr>event_queue := event_queue s @ fst (env i)\<rparr>) of
           (Inl e, s') \<Rightarrow> (Inl e, s')
         | (Inr event1, s') \<Rightarrow> event_worker_steps bson_size env (Suc i) n event1 s'))"

text \<open>Any sequence of \<open>insert\<close> and \<open>dump\<close> on a Page Buffer.\<close>

datatype emb_op = Insert doc | Dump

fun run_ops :: "(doc \<Rightarrow> nat) \<Rightarrow> emb_op list \<Rightarrow> embedder \<Rightarrow> embedder" where
  "run_ops bson_size [] e = e"
| "run_ops bson_size (Insert d # ops) e = run_ops bson_size ops (snd (insert_doc bson_size d e))"
| "run_ops bson_size (Dump # ops) e = run_ops bson_size ops (snd (dump e))"

definition ex_datum :: "string \<Rightarrow> doc" where
  "ex_datum i =
     [(''resource'', VStr ''r1''), (''datum_id'', VStr (''r1/'' @ i)),
      (''datum_kwargs'', VDoc [(''frame'', VInt 0)])]"

definition ex_datum_state :: serializer where
  "ex_datum_state =
     ex_serializer\<lparr>datum_embedder :=
        snd (insert_doc (\<lambda>d. 100) (ex_datum ''0'') ex_datum_embedder)\<rparr>"

subsection \<open>Count Aggregator\<close>

text \<open>\<open>{**dict(a), **dict(b)}\<close>: the entries of \<open>a\<close>, overwritten and extended by those of
  \<open>b\<close>.\<close>

definition dict_merge :: "('k \<times> 'v) list \<Rightarrow> ('k \<times> 'v) list \<Rightarrow> ('k \<times> 'v) list" where
  "dict_merge a b = fold (\<lambda>(k, v). AList.update k v) b a"

text \<open>
  The local variables of \<open>_count_worker\<close>, \<open>last_event_count\<close> and \<open>last_datum_count\<close>,
  are references to dictionaries: at the start two new empty dictionaries.
\<close>

definition count_worker_start :: "serializer \<Rightarrow> (nat \<times> nat) \<times> serializer" where
  "count_worker_start s =
     ((heap_next s, Suc (heap_next s)),
      s\<lparr>heap := AList.update (Suc (heap_next s)) [] (AList.update (heap_next s) [] (heap s)),
        heap_next := heap_next s + 2\<rparr>)"

text \<open>
  One wake of the loop, after \<open>self._count.wait(timeout=5)\<close>: the sums of the counters are
  compared with the sums of the dictionaries the local variables refer to; on an increase
  the header is updated and the local variables are assigned the dictionaries
  \<open>self._db_event_count\<close> and \<open>self._db_datum_count\<close> themselves.
\<close>

definition count_worker_body :: "nat \<times> nat \<Rightarrow> serializer \<Rightarrow> (error + nat \<times> nat) \<times> serializer" where
  "count_worker_body locals s =
     (case locals of
        (last_event_count, last_datum_count) \<Rightarrow>
          if sum_list (map snd (get_list (heap s) (db_event_count s)))
               > sum_list (map snd (get_list (heap s) last_event_count))
             \<or> sum_list (map snd (get_list (heap s) (db_datum_count s)))
               > sum_list (map snd (get_list (heap s) last_datum_count))
          then
            (case update_one [(''run_id'', Eq (run_uid s))]
                    (map (\<lambda>(k, n). (k, Set (VInt n)))
                       (dict_merge (get_list (heap s) (db_event_count s))
                          (get_list (heap s) (db_datum_count s))))
                    False (header_c (volatile_db s)) of
               (Inl e, c) \<Rightarrow> (Inl e, s\<lparr>volatile_db := (volatile_db s)\<lparr>header_c := c\<rparr>\<rparr>)
             | (Inr _, c) \<Rightarrow>
                 (Inr (db_event_count s, db_datum_count s),
                  s\<lparr>volatile_db := (volatile_db s)\<lparr>header_c := c\<rparr>\<rparr>))
          else (Inr locals, s))"

text \<open>
  The loop \<open>while not self._frozen\<close>. What the other threads do while the count worker
  waits is the environment \<open>others\<close>.
\<close>

partial_function (option) count_worker_loop :: "(nat \<Rightarrow> serializer \<Rightarrow> serializer) \<Rightarrow> nat
      \<Rightarrow> nat \<times> nat \<Rightarrow> serializer \<Rightarrow> ((error + unit) \<times> serializer) option" where
  "count_worker_loop others i locals s =
     (if frozen s then Some (Inr (), s)
      else
        (case count_worker_body locals (others i s) of
           (Inl e, s') \<Rightarrow> Some (Inl e, s')
         | (Inr locals', s') \<Rightarrow> count_worker_loop others (Suc i) locals' s'))"

definition count_worker :: "(nat \<Rightarrow> serializer \<Rightarrow> serializer) \<Rightarrow> serializer
      \<Rightarrow> ((error + unit) \<times> serializer) option" where
  "count_worker others =
     try_wrapper (\<lambda>s. case count_worker_start s of
                         (locals, s') \<Rightarrow> count_worker_loop others 0 locals s')"

text \<open>The sum the count worker compares, and the count fields the header holds.\<close>

definition total :: "serializer \<Rightarrow> nat \<Rightarrow> int" where
  "total s a = sum_list (map snd (get_list (heap s) a))"

definition ex_counting :: serializer where
  "ex_counting =
     snd (add_db_event_counts [(VStr ''d1'', ex_event_page [1])]
            (snd (count_worker_start (snd (start ex_start ex_serializer)))))"

definition ex_counting_later :: serializer where
  "ex_counting_later =
     snd (add_db_event_counts [(VStr ''d1'', ex_event_page [2, 3])]
            (snd (count_worker_body (2, 3) ex_counting)))"

subsection \<open>Staged-Commit Controller\<close>

text \<open>\<open>for descriptor in header['descriptors']\<close> iterates what the header holds, and
  \<open>descriptor['uid']\<close> needs a document with that key.\<close>

definition iterate :: "val \<Rightarrow> error + val list" where
  "iterate v =
     (case v of
        VList xs \<Rightarrow> Inr xs
      | VStr cs \<Rightarrow> Inr (map (\<lambda>c. VStr [c]) cs)
      | VDoc d \<Rightarrow> Inr (map (\<lambda>(k, _). VStr k) d)
      | _ \<Rightarrow> Inl (TypeError ''object is not iterable''))"

definition get_uid :: "val \<Rightarrow> error + val" where
  "get_uid v =
     (case v of
        VDoc d \<Rightarrow> (case map_of d ''uid'' of None \<Rightarrow> Inl (KeyError ''uid'') | Some u \<Rightarrow> Inr u)
      | _ \<Rightarrow> Inl (TypeError ''indices must be integers''))"

fun find_all :: "string \<Rightarrow> collection \<Rightarrow> val list \<Rightarrow> error + doc list" where
  "find_all key c [] = Inr []"
| "find_all key c (x # xs) =
     (case get_uid x of
        Inl e \<Rightarrow> Inl e
      | Inr u \<Rightarrow>
          (case find_all key c xs of
             Inl e \<Rightarrow> Inl e
           | Inr ds \<Rightarrow> Inr (find [(key, Eq u)] c @ ds)))"

text \<open>The collection names \<open>'header'\<close>, \<open>'event'\<close> and \<open>'datum'\<close> that tag the documents
  of a run.\<close>

datatype kind = KHeader | KEvent | KDatum

type_synonym run = "(kind \<times> doc) list"

text \<open>\<open>_get_run(db, run_uid)\<close>.\<close>

definition pages_under :: "string \<Rightarrow> string \<Rightarrow> collection \<Rightarrow> doc \<Rightarrow> error + doc list" where
  "pages_under name key c hdr =
     (case map_of hdr name of
        None \<Rightarrow> Inr []
      | Some v \<Rightarrow> (case iterate v of Inl e \<Rightarrow> Inl e | Inr xs \<Rightarrow> find_all key c xs))"

definition get_run :: "db \<Rightarrow> val \<Rightarrow> error + run" where
  "get_run database uid =
     (case find_one [(''run_id'', Eq uid)] (header_c database) of
        None \<Rightarrow> Inl (RuntimeError ''Run not found in volatile_db.'' None)
      | Some hdr \<Rightarrow>
          (case pages_under ''descriptors'' ''descriptor'' (event_c database) hdr of
             Inl e \<Rightarrow> Inl e
           | Inr events \<Rightarrow>
               (case pages_under ''resources'' ''resource'' (datum_c database) hdr of
                  Inl e \<Rightarrow> Inl e
                | Inr datums \<Rightarrow>
                    Inr ((KHeader, hdr) # map (Pair KEvent) events @ map (Pair KDatum) datums))))"

text \<open>\<open>db[collection]\<close>.\<close>

fun get_coll :: "kind \<Rightarrow> db \<Rightarrow> collection" where
  "get_coll KHeader database = header_c database"
| "get_coll KEvent database = event_c database"
| "get_coll KDatum database = datum_c database"

fun set_coll :: "kind \<Rightarrow> collection \<Rightarrow> db \<Rightarrow> db" where
  "set_coll KHeader c database = database\<lparr>header_c := c\<rparr>"
| "set_coll KEvent c database = database\<lparr>event_c := c\<rparr>"
| "set_coll KDatum c database = database\<lparr>datum_c := c\<rparr>"

text \<open>
  \<open>_insert_run(db, run)\<close>: every document is inserted, and the identity that
  \<open>insert_one\<close> writes into the caller's dictionary is deleted from it again. The result
  holds the database and the caller's list of documents after the call.
\<close>

fun insert_run :: "db \<Rightarrow> run \<Rightarrow> (error + unit) \<times> db \<times> run" where
  "insert_run database [] = (Inr (), database, [])"
| "insert_run database ((collection, d) # rest) =
     (case insert_one d (get_coll collection database) of
        (Inl e, c) \<Rightarrow> (Inl e, database, (collection, d) # rest)
      | (Inr _, c) \<Rightarrow>
          (case insert_run (set_coll collection c database) rest of
             (r, database', rest') \<Rightarrow> (r, database', (collection, AList.delete ''_id'' d) # rest')))"

text \<open>\<open>_delete_run(db, run_uid)\<close>, called with the volatile database.\<close>

fun remove_all :: "string \<Rightarrow> val list \<Rightarrow> collection \<Rightarrow> (error + unit) \<times> collection" where
  "remove_all key [] c = (Inr (), c)"
| "remove_all key (x # xs) c =
     (case get_uid x of
        Inl e \<Rightarrow> (Inl e, c)
      | Inr u \<Rightarrow>
          (case remove [(key, Eq u)] c of
             (Inl e, c') \<Rightarrow> (Inl e, c')
           | (Inr _, c') \<Rightarrow> remove_all key xs c'))"

definition remove_under :: "string \<Rightarrow> string \<Rightarrow> doc \<Rightarrow> collection
      \<Rightarrow> (error + unit) \<times> collection" where
  "remove_under name key hdr c =
     (case map_of hdr name of
        None \<Rightarrow> (Inr (), c)
      | Some v \<Rightarrow> (case iterate v of Inl e \<Rightarrow> (Inl e, c) | Inr xs \<Rightarrow> remove_all key xs c))"

definition delete_run :: "val \<Rightarrow> serializer \<Rightarrow> (error + unit) \<times> serializer" where
  "delete_run uid s =
     (case find_one [(''run_id'', Eq uid)] (header_c (volatile_db s)) of
        None \<Rightarrow> (Inl (RuntimeError ''Cannot delete run, run not found.'' None), s)
      | Some hdr \<Rightarrow>
          (case remove_under ''descriptors'' ''descriptor'' hdr (event_c (volatile_db s)) of
             (r1, ec) \<Rightarrow>
               (let s1 = s\<lparr>volatile_db := (volatile_db s)\<lparr>event_c := ec\<rparr>\<rparr> in
                case r1 of
                  Inl e \<Rightarrow> (Inl e, s1)
                | Inr _ \<Rightarrow>
                    (case remove_under ''resources'' ''resource'' hdr (datum_c (volatile_db s1)) of
                       (r2, dc) \<Rightarrow>
                         (let s2 = s1\<lparr>volatile_db := (volatile_db s1)\<lparr>datum_c := dc\<rparr>\<rparr> in
                          case r2 of
                            Inl e \<Rightarrow> (Inl e, s2)
                          | Inr _ \<Rightarrow>
                              (case remove [(''run_id'', Eq uid)] (header_c (volatile_db s2)) of
                                 (r3, hc) \<Rightarrow>
                                   (r3, s2\<lparr>volatile_db := (volatile_db s2)\<lparr>header_c := hc\<rparr>\<rparr>)))))))"

text \<open>
  \<open>volatile_run != permanent_run\<close> compares two lists of pairs of a name and a dictionary.
  Dictionaries are equal when they have the same keys with equal values, in any order.
\<close>

primrec val_eq :: "val \<Rightarrow> val \<Rightarrow> bool"
  and vals_eq :: "val list \<Rightarrow> val list \<Rightarrow> bool"
  and entries_in :: "(string \<times> val) list \<Rightarrow> (string \<times> val) list \<Rightarrow> bool"
  and entry_in :: "string \<times> val \<Rightarrow> (string \<times> val) list \<Rightarrow> bool" where
  "val_eq VNone w = (w = VNone)"
| "val_eq (VInt n) w = (w = VInt n)"
| "val_eq (VStr x) w = (w = VStr x)"
| "val_eq (VList xs) w = (case w of VList ys \<Rightarrow> vals_eq xs ys | _ \<Rightarrow> False)"
| "val_eq (VDoc d) w = (case w of VDoc e \<Rightarrow> length d = length e \<and> entries_in d e | _ \<Rightarrow> False)"
| "vals_eq [] ys = (ys = [])"
| "vals_eq (x # xs) ys = (case ys of [] \<Rightarrow> False | y # ys' \<Rightarrow> val_eq x y \<and> vals_eq xs ys')"
| "entries_in [] e = True"
| "entries_in (kv # d) e = (entry_in kv e \<and> entries_in d e)"
| "entry_in (k, v) e = (case map_of e k of None \<Rightarrow> False | Some w \<Rightarrow> val_eq v w)"

fun run_eq :: "run \<Rightarrow> run \<Rightarrow> bool" where
  "run_eq [] r = (r = [])"
| "run_eq ((c, d) # r) [] = False"
| "run_eq ((c, d) # r) ((c', d') # r') = (c = c' \<and> val_eq (VDoc d) (VDoc d') \<and> run_eq r r')"

text \<open>
  \<open>freeze(run_uid)\<close>. After \<open>self._frozen = True\<close> the method puts the sentinel on both
  queues, wakes the count worker and waits for the three workers to exit. What the worker
  threads do until then is the parameter \<open>join\<close>: it gives the state in which the three
  \<open>shutdown(wait=True)\<close> have returned, or \<open>None\<close> when a \<open>put\<close> or a wait never
  returns. \<open>freeze_prepare\<close> is the method up to the insertion of the stop document,
  \<open>freeze_copy\<close> is the copy to the permanent database with its check.
\<close>

definition freeze_prepare :: "(serializer \<Rightarrow> serializer option) \<Rightarrow> serializer
      \<Rightarrow> ((error + unit) \<times> serializer) option" where
  "freeze_prepare join s =
     (case join (s\<lparr>frozen := True\<rparr>) of
        None \<Rightarrow> None
      | Some s1 \<Rightarrow>
          Some (seq (\<lambda>s. set_header ''event_count'' (VInt (sum_list (map snd (event_count s)))) s)
            (\<lambda>_. seq (\<lambda>s. set_header ''datum_count'' (VInt (sum_list (map snd (datum_count s)))) s)
            (\<lambda>_ s. case worker_error s of
                      Some err \<Rightarrow> (Inl (RuntimeError ''Worker exception: '' (Some err)), s)
                    | None \<Rightarrow>
                        if event_queue s \<noteq> [] \<or> datum_queue s \<noteq> []
                           \<or> \<not> empty_emb (event_embedder s) \<or> \<not> empty_emb (datum_embedder s)
                        then (Inl AssertionError, s)
                        else insert_header ''stop'' (stop_doc s) s)) s1))"

definition integrity_error :: error where
  "integrity_error = IOError ''Failed to move data to permanent database.''"

definition freeze_copy :: "val \<Rightarrow> serializer \<Rightarrow> (error + unit) \<times> serializer" where
  "freeze_copy uid s =
     (case get_run (volatile_db s) uid of
        Inl e \<Rightarrow> (Inl e, s)
      | Inr fetched \<Rightarrow>
          (case insert_run (permanent_db s) fetched of
             (Inl e, pdb, _) \<Rightarrow> (Inl e, s\<lparr>permanent_db := pdb\<rparr>)
           | (Inr _, pdb, volatile_run) \<Rightarrow>
               (let s1 = s\<lparr>permanent_db := pdb\<rparr> in
                case get_run (permanent_db s1) uid of
                  Inl e \<Rightarrow> (Inl e, s1)
                | Inr permanent_run \<Rightarrow>
                    if \<not> run_eq volatile_run permanent_run then (Inl integrity_error, s1)
                    else delete_run uid s1)))"

definition freeze :: "(serializer \<Rightarrow> serializer option) \<Rightarrow> val \<Rightarrow> serializer
      \<Rightarrow> ((error + unit) \<times> serializer) option" where
  "freeze join uid s =
     (case freeze_prepare join s of
        None \<Rightarrow> None
      | Some (Inl e, s1) \<Rightarrow> Some (Inl e, s1)
      | Some (Inr _, s1) \<Rightarrow> Some (freeze_copy uid s1))"

definition close :: "(serializer \<Rightarrow> serializer option) \<Rightarrow> serializer
      \<Rightarrow> ((error + unit) \<times> serializer) option" where
  "close join s = freeze join (run_uid s) s"




definition ex_stop :: doc where
  "ex_stop = [(''uid'', VStr ''stop1''), (''run_start'', VStr ''run1''), (''exit_status'', VStr ''success'')]"

text \<open>A run that has its start document and its stop document at hand, with a permanent
  database that already holds a header of the same run identifier.\<close>

definition ex_stale_db :: db where
  "ex_stale_db =
     empty_db\<lparr>header_c := \<lparr>docs = [[(''_id'', VInt 0), (''run_id'', VStr ''run1'')]], next_id = 1,
                           writable = True\<rparr>\<rparr>"

definition ex_run_state :: serializer where
  "ex_run_state = (snd (start ex_start ex_serializer))\<lparr>stop_doc := VDoc ex_stop\<rparr>"

definition ex_stale_state :: serializer where
  "ex_stale_state = ex_run_state\<lparr>permanent_db := ex_stale_db\<rparr>"

definition ex_join :: "serializer \<Rightarrow> serializer option" where
  "ex_join s = Some s"

definition ex_prepared :: serializer where
  "ex_prepared = snd (the (freeze_prepare ex_join ex_stale_state))"

definition ex_fetched :: run where
  "ex_fetched = projr (get_run (volatile_db ex_prepared) (VStr ''run1''))"

definition ex_copied :: db where
  "ex_copied = fst (snd (insert_run (permanent_db ex_prepared) ex_fetched))"

text \<open>The errors other than the integrity error of \<open>freeze\<close>.\<close>

definition not_io :: "error \<Rightarrow> bool" where
  "not_io e = (case e of IOError _ \<Rightarrow> False | _ \<Rightarrow> True)"







text \<open>
  A run in which a datum without resource waits on the datum queue while an event without
  descriptor reaches the event worker; the state after the event worker has died of it;
  an environment in which nothing more arrives; the schedule of \<open>freeze\<close> in which the
  event worker has exited and the datum worker is running; and the state that schedule
  ends in.
\<close>

definition ex_bad_datum :: doc where
  "ex_bad_datum = [(''datum_id'', VStr ''r1/0'')]"

definition ex_pending :: serializer where
  "ex_pending = ex_run_state\<lparr>datum_queue := [Doc ex_bad_datum]\<rparr>"

definition ex_event_failed :: serializer where
  "ex_event_failed = ex_pending\<lparr>worker_error := Some (KeyError ''descriptor'')\<rparr>"







section \<open>Properties of the Page Buffer\<close>

lemma stream_of_pages [simp]: "stream_of (e\<lparr>pages := ps\<rparr>) d = stream_of e d"
  by (simp add: stream_of_def split: option.splits)

lemma stream_of_current_size [simp]: "stream_of (e\<lparr>current_size := c\<rparr>) d = stream_of e d"
  by (simp add: stream_of_def split: option.splits)

lemma embed_frame_ok:
  "stream_of e d = Inr sid \<Longrightarrow> \<exists>ps. embed_frame d key inner e = (Inr (), e\<lparr>pages := ps\<rparr>)"
proof (induction inner arbitrary: e)
  case Nil
  have "e = e\<lparr>pages := pages e\<rparr>" by simp
  then show ?case by (metis embed_frame.simps(1))
next
  case (Cons a inner)
  obtain ik iv where a: "a = (ik, iv)" by (cases a)
  let ?e = "upd_page sid (\<lambda>p. p\<lparr>frames :=
                AList.update key
                  (AList.update ik (get_list (get_list (frames p) key) ik @ [iv])
                     (get_list (frames p) key))
                  (frames p)\<rparr>) e"
  have s: "stream_of ?e d = Inr sid" using Cons.prems by (simp add: upd_page_def)
  from Cons.IH [OF s] obtain ps where "embed_frame d key inner ?e = (Inr (), ?e\<lparr>pages := ps\<rparr>)"
    by blast
  then show ?case using Cons.prems a by (auto simp: upd_page_def)
qed

lemma embed_item_ok:
  assumes "stream_of e d = Inr sid"
    and "k \<in> set (array_keys e) \<or> k \<notin> set (dataframe_keys e) \<or>
         (case map_of d k of Some (VDoc _) \<Rightarrow> True | _ \<Rightarrow> False)"
  shows "\<exists>ps. embed_item d k v e = (Inr (), e\<lparr>pages := ps\<rparr>)"
proof (cases "k \<in> set (array_keys e)")
  case True
  then show ?thesis using assms by (auto simp: embed_item_def upd_page_def)
next
  case False
  show ?thesis
  proof (cases "k \<in> set (dataframe_keys e)")
    case True
    with False assms(2) obtain inner where "map_of d k = Some (VDoc inner)"
      by (auto split: option.splits val.splits)
    then show ?thesis using False True embed_frame_ok [OF assms(1)]
      by (simp add: embed_item_def)
  next
    case F2: False
    then show ?thesis using False assms by (auto simp: embed_item_def upd_page_def)
  qed
qed

lemma embed_items_ok:
  assumes "stream_of e d = Inr sid"
    and "list_all (\<lambda>(k, v). k \<in> set (array_keys e) \<or> k \<notin> set (dataframe_keys e) \<or>
                  (case map_of d k of Some (VDoc _) \<Rightarrow> True | _ \<Rightarrow> False)) items"
  shows "\<exists>ps. embed_items d items e = (Inr (), e\<lparr>pages := ps\<rparr>)"
  using assms
proof (induction items arbitrary: e)
  case Nil
  have "e = e\<lparr>pages := pages e\<rparr>" by simp
  then show ?case by (metis embed_items.simps(1))
next
  case (Cons a items)
  obtain k v where a: "a = (k, v)" by (cases a)
  from Cons.prems a obtain ps where 1: "embed_item d k v e = (Inr (), e\<lparr>pages := ps\<rparr>)"
    using embed_item_ok [of e d sid k v] by auto
  have "\<exists>ps'. embed_items d items (e\<lparr>pages := ps\<rparr>) = (Inr (), e\<lparr>pages := ps\<rparr>\<lparr>pages := ps'\<rparr>)"
    using Cons.prems by (intro Cons.IH) auto
  then show ?case using 1 a by auto
qed

lemma insert_doc_reject:
  "current_size e + bson_size d > max_size e \<Longrightarrow> insert_doc bson_size d e = (Inr (Some d), e)"
  by (simp add: insert_doc_def)

lemma insert_doc_accept:
  assumes "\<not> current_size e + bson_size d > max_size e" and "valid_doc e d"
  shows "\<exists>ps sid. stream_of e d = Inr sid \<and>
           insert_doc bson_size d e =
            (Inr None, e\<lparr>pages := ps, current_size := current_size e + bson_size d,
                 stream_size := AList.update sid (get_count (stream_size e) sid + bson_size d)
                                  (stream_size e)\<rparr>)"
proof -
  from assms(2) obtain sid where s: "stream_of e d = Inr sid"
    by (auto simp: valid_doc_def split: sum.splits)
  from assms(2) obtain ps where "embed_items d d e = (Inr (), e\<lparr>pages := ps\<rparr>)"
    using embed_items_ok [OF s, of d] by (auto simp: valid_doc_def)
  then show ?thesis using assms(1) s by (auto simp: insert_doc_def Let_def)
qed

lemma get_count_update [simp]: "get_count (AList.update k n m) k = n"
  by (simp add: get_count_def update_conv')

text \<open>
  Claim C4 (buffer backpressure). If the current size plus the serialized size of the
  document exceeds the maximum size, \<open>insert\<close> returns the document itself and the whole
  buffer state is unchanged. Otherwise, for a validated document, \<open>insert\<close> returns \<open>None\<close>
  and both the current size and the size of the document's stream grow by the serialized size.
\<close>

theorem insert_backpressure:
  "(current_size e + bson_size d > max_size e \<longrightarrow>
      insert_doc bson_size d e = (Inr (Some d), e)) \<and>
   (\<not> current_size e + bson_size d > max_size e \<and> valid_doc e d \<longrightarrow>
      (\<exists>e' sid. insert_doc bson_size d e = (Inr None, e') \<and>
         stream_of e d = Inr sid \<and>
         current_size e' = current_size e + bson_size d \<and>
         get_count (stream_size e') sid = get_count (stream_size e) sid + bson_size d))"
proof (intro conjI impI)
  assume "current_size e + bson_size d > max_size e"
  then show "insert_doc bson_size d e = (Inr (Some d), e)" by (rule insert_doc_reject)
next
  assume "\<not> current_size e + bson_size d > max_size e \<and> valid_doc e d"
  then obtain ps sid where "stream_of e d = Inr sid"
    and "insert_doc bson_size d e =
            (Inr None, e\<lparr>pages := ps, current_size := current_size e + bson_size d,
                 stream_size := AList.update sid (get_count (stream_size e) sid + bson_size d)
                                  (stream_size e)\<rparr>)"
    using insert_doc_accept [of e bson_size d] by blast
  then show "\<exists>e' sid. insert_doc bson_size d e = (Inr None, e') \<and>
         stream_of e d = Inr sid \<and>
         current_size e' = current_size e + bson_size d \<and>
         get_count (stream_size e') sid = get_count (stream_size e) sid + bson_size d"
    by simp
qed

theorem insert_backpressure_witness:
  "insert_doc (\<lambda>d. 600) (ex_event ''d1'' 2) (ex_embedder\<lparr>current_size := 600\<rparr>) =
     (Inr (Some (ex_event ''d1'' 2)), ex_embedder\<lparr>current_size := 600\<rparr>) \<and>
   valid_doc ex_embedder (ex_event ''d1'' 1) \<and>
   (\<exists>e'. insert_doc (\<lambda>d. 600) (ex_event ''d1'' 1) ex_embedder = (Inr None, e') \<and>
      current_size e' = 600 \<and> get_count (stream_size e') (VStr ''d1'') = 600)"
proof -
  have v: "valid_doc ex_embedder (ex_event ''d1'' 1)"
    by (simp add: valid_doc_def stream_of_def ex_embedder_def ex_event_def)
  have s: "stream_of ex_embedder (ex_event ''d1'' 1) = Inr (VStr ''d1'')"
    by (simp add: stream_of_def ex_embedder_def ex_event_def)
  have c: "current_size ex_embedder = 0" "max_size ex_embedder = 1000"
    "stream_size ex_embedder = []"
    by (simp_all add: ex_embedder_def)
  show ?thesis
    using insert_backpressure [of "ex_embedder\<lparr>current_size := 600\<rparr>" "\<lambda>d. 600" "ex_event ''d1'' 2"]
      insert_backpressure [of ex_embedder "\<lambda>d. 600" "ex_event ''d1'' 1"] v s c
    by (auto simp: get_count_def)
qed

text \<open>
  Claim C5 (dump isolation). \<open>dump\<close> returns the per-stream contents and the per-stream sizes
  as they were, and leaves a buffer that is empty: the current size and every per-stream
  size are zero and no page is left. The state after \<open>dump\<close> does not depend on what the
  buffer held, so a later \<open>insert\<close> cannot observe it; for a buffer built by the
  constructor the state after \<open>dump\<close> is the newly constructed one.
\<close>

theorem dump_isolation:
  "fst (dump e) = (pages e, stream_size e) \<and>
   empty_emb (snd (dump e)) \<and>
   current_size (snd (dump e)) = 0 \<and>
   (\<forall>sid. get_count (stream_size (snd (dump e))) sid = 0) \<and>
   pages (snd (dump e)) = [] \<and>
   snd (dump (e\<lparr>pages := ps, current_size := c, stream_size := ss\<rparr>)) = snd (dump e) \<and>
   insert_doc bson_size d (snd (dump (e\<lparr>pages := ps, current_size := c, stream_size := ss\<rparr>)))
     = insert_doc bson_size d (snd (dump e)) \<and>
   (Embedder_init doc_type msize = Inr e \<longrightarrow>
      snd (dump (e\<lparr>pages := ps, current_size := c, stream_size := ss\<rparr>)) = e)"
  by (auto simp: dump_def empty_emb_def get_count_def Embedder_init_def split: if_splits)

theorem dump_isolation_witness:
  "Embedder_init ''event'' 1000 = Inr ex_embedder \<and>
   snd (dump (ex_embedder\<lparr>pages := [(VStr ''d1'', empty_page)], current_size := 600,
                 stream_size := [(VStr ''d1'', 600)]\<rparr>)) = ex_embedder"
proof -
  have i: "Embedder_init ''event'' 1000 = Inr ex_embedder"
    by (simp add: Embedder_init_def ex_embedder_def)
  have "Embedder_init ''event'' 1000 = Inr ex_embedder \<longrightarrow>
        snd (dump (ex_embedder\<lparr>pages := [(VStr ''d1'', empty_page)], current_size := 600,
                 stream_size := [(VStr ''d1'', 600)]\<rparr>)) = ex_embedder"
    using dump_isolation [where e = ex_embedder and ps = "[(VStr ''d1'', empty_page)]"
        and c = 600 and ss = "[(VStr ''d1'', 600)]" and doc_type = "''event''" and msize = 1000]
    by blast
  with i show ?thesis by blast
qed

section \<open>Properties of the Page Writer\<close>

lemma split_path_nonempty: "split_path k \<noteq> []"
  by (induction k) (auto split: list.splits)

lemma map_of_upd_path:
  "upd_path ks m d = Inr d' \<Longrightarrow> k' \<noteq> hd ks \<Longrightarrow> map_of d' k' = map_of d k'"
  by (induction ks m d rule: upd_path.induct)
     (auto simp: update_conv' split: sum.splits option.splits val.splits)

lemma map_of_apply_update:
  "apply_update u d = Inr d' \<Longrightarrow> \<forall>km \<in> set u. top_key (fst km) \<noteq> k' \<Longrightarrow> map_of d' k' = map_of d k'"
proof (induction u arbitrary: d)
  case Nil
  then show ?case by simp
next
  case (Cons a u)
  obtain k m where a: "a = (k, m)" by (cases a)
  from Cons.prems(1) a obtain d1 where 1: "upd_path (split_path k) m d = Inr d1"
    and 2: "apply_update u d1 = Inr d'"
    by (auto split: if_splits sum.splits)
  have "k' \<noteq> hd (split_path k)" using Cons.prems(2) a by (auto simp: top_key_def)
  with 1 have "map_of d1 k' = map_of d k'" by (rule map_of_upd_path)
  moreover have "map_of d' k' = map_of d1 k'" using 2 Cons.prems(2) by (intro Cons.IH) auto
  ultimately show ?case by simp
qed

lemma apply_update_append:
  "apply_update (u1 @ u2) d =
     (case apply_update u1 d of Inl e \<Rightarrow> Inl e | Inr d1 \<Rightarrow> apply_update u2 d1)"
  by (induction u1 arbitrary: d) (auto split: sum.splits)

lemma split_path_plain [simp]:
  "split_path ''size'' = [''size'']"
  "split_path ''first_index'' = [''first_index'']"
  "split_path ''last_index'' = [''last_index'']"
  by simp_all

lemma apply_tail:
  assumes "apply_update [(''size'', Inc sz), (''first_index'', Min lo), (''last_index'', Max hi)] d = Inr d'"
  shows "modify (Min lo) (map_of d ''first_index'') = Inr (the (map_of d' ''first_index''))"
    and "modify (Max hi) (map_of d ''last_index'') = Inr (the (map_of d' ''last_index''))"
    and "map_of d' ''first_index'' \<noteq> None" and "map_of d' ''last_index'' \<noteq> None"
    and "\<forall>k. k \<notin> {''size'', ''first_index'', ''last_index''} \<longrightarrow> map_of d' k = map_of d k"
  using assms by (auto simp: update_conv' split: sum.splits)

lemma index_op_apply:
  assumes io: "index_op key d PS lo hi u"
    and ap: "apply_update (u_update u) p = Inr p'"
    and key: "key \<notin> {''size'', ''first_index'', ''last_index''}"
  shows "map_of p' key = map_of p key"
    and "modify (Min lo) (map_of p ''first_index'') = Inr (the (map_of p' ''first_index''))"
    and "modify (Max hi) (map_of p ''last_index'') = Inr (the (map_of p' ''last_index''))"
    and "map_of p' ''first_index'' \<noteq> None" and "map_of p' ''last_index'' \<noteq> None"
proof -
  from io obtain pushes sz where u: "u_update u = pushes @ [(''size'', Inc sz), (''first_index'', Min lo), (''last_index'', Max hi)]"
    and pk: "\<forall>km \<in> set pushes. top_key (fst km) \<notin> {key, ''size'', ''first_index'', ''last_index''}"
    by (auto simp: index_op_def)
  from ap u obtain p1 where 1: "apply_update pushes p = Inr p1"
    and 2: "apply_update [(''size'', Inc sz), (''first_index'', Min lo), (''last_index'', Max hi)] p1 = Inr p'"
    by (auto simp: apply_update_append split: sum.splits)
  have k1: "map_of p1 key = map_of p key" using 1 pk by (intro map_of_apply_update) auto
  have f1: "map_of p1 ''first_index'' = map_of p ''first_index''"
    using 1 pk by (intro map_of_apply_update) auto
  have l1: "map_of p1 ''last_index'' = map_of p ''last_index''"
    using 1 pk by (intro map_of_apply_update) auto
  show "map_of p' key = map_of p key" using apply_tail(5) [OF 2] key k1 by simp
  show "modify (Min lo) (map_of p ''first_index'') = Inr (the (map_of p' ''first_index''))"
    using apply_tail(1) [OF 2] f1 by simp
  show "modify (Max hi) (map_of p ''last_index'') = Inr (the (map_of p' ''last_index''))"
    using apply_tail(2) [OF 2] l1 by simp
  show "map_of p' ''first_index'' \<noteq> None" using apply_tail(3) [OF 2] .
  show "map_of p' ''last_index'' \<noteq> None" using apply_tail(4) [OF 2] .
qed

lemma index_op_apply_page:
  assumes "index_op key d PS lo hi u" and "apply_update (u_update u) p = Inr p'"
    and "key \<notin> {''size'', ''first_index'', ''last_index''}"
    and "map_of p ''first_index'' = Some (VInt a)" and "map_of p ''last_index'' = Some (VInt b)"
  shows "map_of p' ''first_index'' = Some (VInt (min a lo))"
    and "map_of p' ''last_index'' = Some (VInt (max b hi))"
    and "map_of p' key = map_of p key"
  using index_op_apply [OF assms(1,2,3)] assms(4,5) by auto

lemma index_op_apply_new:
  assumes "index_op key d PS lo hi u" and "apply_update (u_update u) ((''_id'', i) # eq_fields (u_filter u)) = Inr p'"
    and "key \<notin> {''size'', ''first_index'', ''last_index'', ''_id''}"
  shows "map_of p' ''first_index'' = Some (VInt lo)"
    and "map_of p' ''last_index'' = Some (VInt hi)"
    and "map_of p' key = Some d"
proof -
  have k: "key \<notin> {''size'', ''first_index'', ''last_index''}" using assms(3) by simp
  have e: "eq_fields (u_filter u) = [(key, d)]" using assms(1) by (simp add: index_op_def eq_fields_def)
  note r = index_op_apply [OF assms(1,2) k]
  have "key \<noteq> ''first_index''" "key \<noteq> ''last_index''" "key \<noteq> ''_id''" using assms(3) by auto
  then show "map_of p' ''first_index'' = Some (VInt lo)" "map_of p' ''last_index'' = Some (VInt hi)"
     "map_of p' key = Some d"
    using r e by auto
qed

lemma matches_key [simp]: "matches [(key, Eq d)] p = holds (Eq d) (map_of p key)"
  by (simp add: matches_def)

lemma matches_index_filter [simp]:
  "matches [(key, Eq d), (''size'', Lt PS)] p = (holds (Eq d) (map_of p key) \<and> is_open PS p)"
  by (simp add: matches_def is_open_def)

lemma holds_Eq_exact [simp]: "holds (Eq d) (Some d)"
  by simp

lemma holds_Eq_other: "hashable d' \<Longrightarrow> d' \<noteq> d \<Longrightarrow> \<not> holds (Eq d) (Some d')"
  by (cases d') auto

lemma pages_chain_Cons:
  "pages_chain key d PS a (p # ps) n \<longleftrightarrow>
     (\<exists>b. map_of p ''first_index'' = Some (VInt a) \<and> map_of p ''last_index'' = Some (VInt b) \<and>
          a \<le> b + 1 \<and> map_of p key = Some d \<and> (ps = [] \<or> \<not> is_open PS p) \<and>
          pages_chain key d PS (b + 1) ps n)"
proof (cases "map_of p ''first_index''")
  case None
  then show ?thesis by simp
next
  case (Some x)
  note sx = Some
  show ?thesis
  proof (cases "map_of p ''last_index''")
    case None
    then show ?thesis using sx by (cases x) simp_all
  next
    case (Some y)
    then show ?thesis using sx by (cases x; cases y) auto
  qed
qed

declare pages_chain.simps(2) [simp del]

lemma pages_chain_exact:
  "pages_chain key d PS a ps n \<Longrightarrow> \<forall>p \<in> set ps. map_of p key = Some d"
  by (induction ps arbitrary: a) (auto simp: pages_chain_Cons)

lemma pages_chain_snoc:
  assumes "pages_chain key d PS a ps lo" and "\<forall>p \<in> set ps. \<not> is_open PS p"
    and "map_of p' ''first_index'' = Some (VInt lo)" and "map_of p' ''last_index'' = Some (VInt hi)"
    and "map_of p' key = Some d" and "lo \<le> hi + 1"
  shows "pages_chain key d PS a (ps @ [p']) (hi + 1)"
  using assms by (induction ps arbitrary: a) (auto simp: pages_chain_Cons)

lemma update_first_same:
  assumes io: "index_op key d PS lo hi u"
    and key: "key \<notin> {''size'', ''first_index'', ''last_index''}"
    and le: "lo \<le> hi + 1"
    and up: "update_first (u_filter u) (u_update u) ds = Some (Inr ds')"
    and ch: "pages_chain key d PS a (pages_of key d ds) lo"
  shows "pages_chain key d PS a (pages_of key d ds') (hi + 1)"
  using up ch
proof (induction ds arbitrary: a ds')
  case Nil
  then show ?case by simp
next
  case (Cons p ds)
  have f: "u_filter u = [(key, Eq d), (''size'', Lt PS)]" using io by (simp add: index_op_def)
  show ?case
  proof (cases "holds (Eq d) (map_of p key)")
    case False
    then obtain ds0 where 0: "update_first (u_filter u) (u_update u) ds = Some (Inr ds0)"
      and 1: "ds' = p # ds0"
      using Cons.prems(1) f by (auto split: option.splits sum.splits)
    have "pages_chain key d PS a (pages_of key d ds) lo"
      using Cons.prems(2) False by (simp add: pages_of_def)
    from Cons.IH [OF 0 this] show ?thesis using 1 False by (simp add: pages_of_def)
  next
    case True
    then have po: "pages_of key d (p # ds) = p # pages_of key d ds" by (simp add: pages_of_def)
    from Cons.prems(2) po obtain b where
      fi: "map_of p ''first_index'' = Some (VInt a)" and la: "map_of p ''last_index'' = Some (VInt b)"
      and ab: "a \<le> b + 1" and kd: "map_of p key = Some d"
      and cl: "pages_of key d ds = [] \<or> \<not> is_open PS p"
      and rest: "pages_chain key d PS (b + 1) (pages_of key d ds) lo"
      by (auto simp: pages_chain_Cons)
    show ?thesis
    proof (cases "is_open PS p")
      case op: True
      with cl have e: "pages_of key d ds = []" by simp
      with rest have lo: "b + 1 = lo" by simp
      from Cons.prems(1) f True op obtain p' where ap: "apply_update (u_update u) p = Inr p'"
        and d': "ds' = p' # ds"
        by (auto split: sum.splits)
      note r = index_op_apply_page [OF io ap key fi la]
      have "pages_of key d ds' = [p']" using d' e r(3) kd by (simp add: pages_of_def)
      then show ?thesis using r kd ab lo le by (simp add: pages_chain_Cons min_def max_def)
    next
      case cl: False
      then obtain ds0 where 0: "update_first (u_filter u) (u_update u) ds = Some (Inr ds0)"
        and 1: "ds' = p # ds0"
        using Cons.prems(1) f by (auto split: option.splits sum.splits)
      from Cons.IH [OF 0 rest] have "pages_chain key d PS (b + 1) (pages_of key d ds0) (hi + 1)" .
      then show ?thesis using 1 True fi la ab kd cl by (simp add: pages_of_def pages_chain_Cons)
    qed
  qed
qed

lemma update_first_none_closed:
  assumes "u_filter u = [(key, Eq d), (''size'', Lt PS)]"
    and "update_first (u_filter u) (u_update u) ds = None"
  shows "\<forall>p \<in> set (pages_of key d ds). \<not> is_open PS p"
  using assms(2)
proof (induction ds)
  case Nil
  then show ?case by (simp add: pages_of_def)
next
  case (Cons p ds)
  then show ?case using assms(1)
    by (auto simp: pages_of_def split: if_splits option.splits sum.splits)
qed

lemma update_one_same:
  assumes io: "index_op key d PS lo hi u"
    and key: "key \<notin> {''size'', ''first_index'', ''last_index'', ''_id''}"
    and le: "lo \<le> hi + 1"
    and up: "update_one (u_filter u) (u_update u) (u_upsert u) c = (Inr (), c')"
    and ch: "pages_chain key d PS a (pages_of key d (docs c)) lo"
  shows "pages_chain key d PS a (pages_of key d (docs c')) (hi + 1)"
proof (cases "update_first (u_filter u) (u_update u) (docs c)")
  case None
  have f: "u_filter u = [(key, Eq d), (''size'', Lt PS)]" and ups: "u_upsert u"
    using io by (simp_all add: index_op_def)
  from up None ups obtain p' where
    ap: "apply_update (u_update u) ((''_id'', VInt (int (next_id c))) # eq_fields (u_filter u)) = Inr p'"
    and c': "docs c' = docs c @ [p']"
    by (auto simp: update_one_def split: sum.splits if_splits)
  note r = index_op_apply_new [OF io ap key]
  have "pages_of key d (docs c') = pages_of key d (docs c) @ [p']"
    using c' r(3) by (simp add: pages_of_def)
  moreover have "pages_chain key d PS a (pages_of key d (docs c) @ [p']) (hi + 1)"
    using ch update_first_none_closed [OF f None] r le by (intro pages_chain_snoc) auto
  ultimately show ?thesis by simp
next
  case (Some r)
  with up obtain ds' where 1: "update_first (u_filter u) (u_update u) (docs c) = Some (Inr ds')"
    and 2: "docs c' = ds'"
    by (auto simp: update_one_def split: sum.splits if_splits)
  have k: "key \<notin> {''size'', ''first_index'', ''last_index''}" using key by simp
  from update_first_same [OF io k le 1 ch] 2 show ?thesis by simp
qed

lemma pages_of_exact_iff:
  "(\<forall>p \<in> set (pages_of key d ds). map_of p key = Some d) \<longleftrightarrow>
   (\<forall>p \<in> set ds. holds (Eq d) (map_of p key) \<longrightarrow> map_of p key = Some d)"
  by (auto simp: pages_of_def)

lemma update_first_other:
  assumes io: "index_op key d' PS lo hi u"
    and key: "key \<notin> {''size'', ''first_index'', ''last_index''}"
    and ne: "d' \<noteq> d" and hd: "hashable d"
    and up: "update_first (u_filter u) (u_update u) ds = Some (Inr ds')"
    and ex: "\<forall>p \<in> set ds. holds (Eq d) (map_of p key) \<longrightarrow> map_of p key = Some d"
  shows "pages_of key d ds' = pages_of key d ds"
  using up ex
proof (induction ds arbitrary: ds')
  case Nil
  then show ?case by simp
next
  case (Cons p ds)
  have f: "u_filter u = [(key, Eq d'), (''size'', Lt PS)]" using io by (simp add: index_op_def)
  have ex': "\<forall>p \<in> set ds. holds (Eq d) (map_of p key) \<longrightarrow> map_of p key = Some d"
    using Cons.prems(2) by simp
  have exp: "holds (Eq d) (map_of p key) \<Longrightarrow> map_of p key = Some d"
    using Cons.prems(2) by simp
  show ?case
  proof (cases "matches (u_filter u) p")
    case True
    have "update_first (u_filter u) (u_update u) (p # ds) =
        Some (case apply_update (u_update u) p of Inl e \<Rightarrow> Inl e | Inr d' \<Rightarrow> Inr (d' # ds))"
      using True by simp
    with Cons.prems(1) obtain p' where ap: "apply_update (u_update u) p = Inr p'" and d': "ds' = p' # ds"
      by (cases "apply_update (u_update u) p") auto
    have k: "map_of p' key = map_of p key" using index_op_apply(1) [OF io ap key] .
    have m: "holds (Eq d') (map_of p key)" using True f by simp
    have "\<not> holds (Eq d) (map_of p key)"
    proof
      assume h: "holds (Eq d) (map_of p key)"
      from exp [OF h] m have "holds (Eq d') (Some d)" by simp
      moreover have "\<not> holds (Eq d') (Some d)" using ne by (intro holds_Eq_other [OF hd]) simp
      ultimately show False by blast
    qed
    then show ?thesis using d' k by (simp add: pages_of_def)
  next
    case False
    have "update_first (u_filter u) (u_update u) (p # ds) =
        (case update_first (u_filter u) (u_update u) ds of
           None \<Rightarrow> None
         | Some (Inl e) \<Rightarrow> Some (Inl e)
         | Some (Inr ds') \<Rightarrow> Some (Inr (p # ds')))"
      using False by simp
    with Cons.prems(1) obtain ds0 where 0: "update_first (u_filter u) (u_update u) ds = Some (Inr ds0)"
      and 1: "ds' = p # ds0"
      by (auto split: option.splits sum.splits)
    from Cons.IH [OF 0 ex'] show ?thesis using 1 by (simp add: pages_of_def)
  qed
qed

lemma update_one_other:
  assumes io: "index_op key d' PS lo hi u"
    and key: "key \<notin> {''size'', ''first_index'', ''last_index'', ''_id''}"
    and ne: "d' \<noteq> d" and hd: "hashable d" and hd': "hashable d'"
    and up: "update_one (u_filter u) (u_update u) (u_upsert u) c = (Inr (), c')"
    and ex: "\<forall>p \<in> set (pages_of key d (docs c)). map_of p key = Some d"
  shows "pages_of key d (docs c') = pages_of key d (docs c)"
proof (cases "update_first (u_filter u) (u_update u) (docs c)")
  case None
  have ups: "u_upsert u" using io by (simp add: index_op_def)
  from up None ups obtain p' where
    ap: "apply_update (u_update u) ((''_id'', VInt (int (next_id c))) # eq_fields (u_filter u)) = Inr p'"
    and c': "docs c' = docs c @ [p']"
    by (auto simp: update_one_def split: sum.splits if_splits)
  have "map_of p' key = Some d'" using index_op_apply_new(3) [OF io ap key] .
  then have "\<not> holds (Eq d) (map_of p' key)" using holds_Eq_other [OF hd' ne] by simp
  then show ?thesis using c' by (simp add: pages_of_def)
next
  case (Some r)
  with up obtain ds' where 1: "update_first (u_filter u) (u_update u) (docs c) = Some (Inr ds')"
    and 2: "docs c' = ds'"
    by (auto simp: update_one_def split: sum.splits if_splits)
  have k: "key \<notin> {''size'', ''first_index'', ''last_index''}" using key by simp
  have "\<forall>p \<in> set (docs c). holds (Eq d) (map_of p key) \<longrightarrow> map_of p key = Some d"
    using ex by (simp only: pages_of_exact_iff)
  from update_first_other [OF io k ne hd 1 this] 2 show ?thesis by simp
qed

lemma bulk_apply_chain:
  assumes key: "key \<notin> {''size'', ''first_index'', ''last_index'', ''_id''}" and hd: "hashable d"
  shows "bulk_apply ops c = (True, c') \<Longrightarrow> ops_chain key d PS lo ops n \<Longrightarrow>
         pages_chain key d PS a (pages_of key d (docs c)) lo \<Longrightarrow>
         pages_chain key d PS a (pages_of key d (docs c')) n"
proof (induction ops arbitrary: c lo)
  case Nil
  then show ?case by simp
next
  case (Cons u us)
  from Cons.prems(1) obtain c1 where 1: "update_one (u_filter u) (u_update u) (u_upsert u) c = (Inr (), c1)"
    and 2: "bulk_apply us c1 = (True, c')"
    by (auto split: prod.splits sum.splits)
  from Cons.prems(2) obtain d' lo' hi where io: "index_op key d' PS lo' hi u" and h': "hashable d'"
    and le: "lo' \<le> hi + 1"
    and r: "if d' = d then lo' = lo \<and> ops_chain key d PS (hi + 1) us n
            else ops_chain key d PS lo us n"
    by auto
  show ?case
  proof (cases "d' = d")
    case True
    with io r have io': "index_op key d PS lo hi u" and oc: "ops_chain key d PS (hi + 1) us n"
      by auto
    have le': "lo \<le> hi + 1" using le r True by simp
    from update_one_same [OF io' key le' 1 Cons.prems(3)]
    have "pages_chain key d PS a (pages_of key d (docs c1)) (hi + 1)" .
    from Cons.IH [OF 2 oc this] show ?thesis .
  next
    case False
    with r have oc: "ops_chain key d PS lo us n" by simp
    have "pages_of key d (docs c1) = pages_of key d (docs c)"
      using update_one_other [OF io key False hd h' 1] pages_chain_exact [OF Cons.prems(3)] by simp
    with Cons.prems(3) have "pages_chain key d PS a (pages_of key d (docs c1)) lo" by simp
    from Cons.IH [OF 2 oc this] show ?thesis .
  qed
qed

lemma top_key_plain [simp]:
  "top_key ''uid'' = ''uid''" "top_key ''time'' = ''time''" "top_key ''seq_num'' = ''seq_num''"
  "top_key ''datum_id'' = ''datum_id''"
  by (simp_all add: top_key_def)

lemma top_key_prefix [simp]:
  "top_key (CHR ''d'' # CHR ''a'' # CHR ''t'' # CHR ''a'' # CHR ''.'' # k) = ''data''"
  "top_key (CHR ''t'' # CHR ''i'' # CHR ''m'' # CHR ''e'' # CHR ''s'' # CHR ''t'' # CHR ''a'' # CHR ''m'' # CHR ''p'' # CHR ''s'' # CHR ''.'' # k) = ''timestamps''"
  "top_key (CHR ''f'' # CHR ''i'' # CHR ''l'' # CHR ''l'' # CHR ''e'' # CHR ''d'' # CHR ''.'' # k) = ''filled''"
  "top_key (CHR ''d'' # CHR ''a'' # CHR ''t'' # CHR ''u'' # CHR ''m'' # CHR ''_'' # CHR ''k'' # CHR ''w'' # CHR ''a'' # CHR ''r'' # CHR ''g'' # CHR ''s'' # CHR ''.'' # k) = ''datum_kwargs''"
  using split_path_nonempty [of k]
  by (simp_all add: top_key_def split: list.splits)

lemma get_count_update_other [simp]: "k' \<noteq> k \<Longrightarrow> get_count (AList.update k n m) k' = get_count m k'"
  by (simp add: get_count_def update_conv')

lemma updateone_eventpage_index_op:
  assumes "updateone_eventpage k p sz s = (u, s1)"
  shows "index_op ''descriptor'' k (PAGE_SIZE s) (get_count (event_count s) k)
           (get_count (event_count s) k + int (length (get_list (arrays p) ''seq_num'')) - 1) u"
    and "s1 = s\<lparr>event_count := AList.update k
                 (get_count (event_count s) k + int (length (get_list (arrays p) ''seq_num'')))
                 (event_count s)\<rparr>"
proof -
  let ?pushes = "[(''uid'', Push (get_list (arrays p) ''uid'')),
              (''time'', Push (get_list (arrays p) ''time'')),
              (''seq_num'', Push (get_list (arrays p) ''seq_num''))]
             @ (map (\<lambda>(key, value_array). (''data.'' @ key, Push value_array))
                          (get_list (frames p) ''data'')
               @ map (\<lambda>(key, value_array). (''timestamps.'' @ key, Push value_array))
                          (get_list (frames p) ''timestamps'')
               @ map (\<lambda>(key, value_array). (''filled.'' @ key, Push value_array))
                          (get_list (frames p) ''filled''))"
  have pk: "\<forall>km \<in> set ?pushes. top_key (fst km) \<notin> {''descriptor'', ''size'', ''first_index'', ''last_index''}"
    by auto
  have u: "u_update u = ?pushes @ [(''size'', Inc (int sz)),
                (''first_index'', Min (get_count (event_count s) k)),
                (''last_index'', Max (get_count (event_count s) k
                     + int (length (get_list (arrays p) ''seq_num'')) - 1))]"
    using assms by (auto simp: updateone_eventpage_def Let_def)
  have f: "u_filter u = [(''descriptor'', Eq k), (''size'', Lt (PAGE_SIZE s))]" "u_upsert u"
    using assms by (auto simp: updateone_eventpage_def Let_def)
  show "index_op ''descriptor'' k (PAGE_SIZE s) (get_count (event_count s) k)
           (get_count (event_count s) k + int (length (get_list (arrays p) ''seq_num'')) - 1) u"
    unfolding index_op_def using u f pk by blast
  show "s1 = s\<lparr>event_count := AList.update k
                 (get_count (event_count s) k + int (length (get_list (arrays p) ''seq_num'')))
                 (event_count s)\<rparr>"
    using assms by (auto simp: updateone_eventpage_def Let_def)
qed

lemma buf_count_Nil [simp]: "buf_count key d [] = 0"
  by (simp add: buf_count_def)

lemma buf_count_Cons [simp]:
  "buf_count key d ((k, p) # buf) =
     (if k = d then int (length (get_list (arrays p) key)) else 0) + buf_count key d buf"
  by (simp add: buf_count_def)

lemma event_operations_chain:
  assumes hd: "hashable d"
  shows "event_operations buf sizes s = (Inr ops, s') \<Longrightarrow> \<forall>kp \<in> set buf. hashable (fst kp) \<Longrightarrow>
     ops_chain ''descriptor'' d (PAGE_SIZE s) (get_count (event_count s) d) ops
        (get_count (event_count s') d) \<and>
     get_count (event_count s') d = get_count (event_count s) d + buf_count ''seq_num'' d buf \<and>
     (\<exists>ec. s' = s\<lparr>event_count := ec\<rparr>)"
proof (induction buf arbitrary: s ops)
  case Nil
  have "s = s\<lparr>event_count := event_count s\<rparr>" by simp
  with Nil show ?case by (metis Pair_inject event_operations.simps(1) ops_chain.simps(1)
        buf_count_Nil add.right_neutral sum.inject(2))
next
  case (Cons a buf)
  obtain k p where a: "a = (k, p)" by (cases a)
  from Cons.prems(1) a obtain sz where sz: "map_of sizes k = Some sz"
    by (auto split: option.splits)
  obtain u s1 where u: "updateone_eventpage k p sz s = (u, s1)" by (cases "updateone_eventpage k p sz s")
  from Cons.prems(1) a sz u obtain us where us: "event_operations buf sizes s1 = (Inr us, s')"
    and ops: "ops = u # us"
    by (auto split: prod.splits sum.splits)
  let ?c = "int (length (get_list (arrays p) ''seq_num''))"
  note io = updateone_eventpage_index_op [OF u]
  have ps1: "PAGE_SIZE s1 = PAGE_SIZE s" using io(2) by simp
  have hk: "hashable k" using Cons.prems(2) a by simp
  have hb: "\<forall>kp \<in> set buf. hashable (fst kp)" using Cons.prems(2) by simp
  from Cons.IH [OF us hb] ps1 have
    ih1: "ops_chain ''descriptor'' d (PAGE_SIZE s) (get_count (event_count s1) d) us
        (get_count (event_count s') d)"
    and ih2: "get_count (event_count s') d = get_count (event_count s1) d + buf_count ''seq_num'' d buf"
    and ih3: "\<exists>ec. s' = s1\<lparr>event_count := ec\<rparr>"
    by auto
  have c1: "get_count (event_count s1) d = (if k = d then get_count (event_count s) d + ?c
              else get_count (event_count s) d)"
    using io(2) by auto
  have "ops_chain ''descriptor'' d (PAGE_SIZE s) (get_count (event_count s) d) (u # us)
        (get_count (event_count s') d)"
  proof (cases "k = d")
    case True
    have "index_op ''descriptor'' d (PAGE_SIZE s) (get_count (event_count s) d)
           (get_count (event_count s) d + ?c - 1) u" using io(1) True by simp
    moreover have "ops_chain ''descriptor'' d (PAGE_SIZE s) (get_count (event_count s) d + ?c - 1 + 1) us
        (get_count (event_count s') d)" using ih1 c1 True by simp
    moreover have "get_count (event_count s) d \<le> get_count (event_count s) d + ?c - 1 + 1" by simp
    ultimately show ?thesis using hd
      by (subst ops_chain.simps) (intro exI [of _ d] exI [of _ "get_count (event_count s) d"]
          exI [of _ "get_count (event_count s) d + ?c - 1"], simp)
  next
    case False
    have "index_op ''descriptor'' k (PAGE_SIZE s) (get_count (event_count s) k)
           (get_count (event_count s) k + ?c - 1) u" using io(1) .
    moreover have "ops_chain ''descriptor'' d (PAGE_SIZE s) (get_count (event_count s) d) us
        (get_count (event_count s') d)" using ih1 c1 False by simp
    moreover have "get_count (event_count s) k \<le> get_count (event_count s) k + ?c - 1 + 1" by simp
    ultimately show ?thesis using hk False
      by (subst ops_chain.simps) (intro exI [of _ k] exI [of _ "get_count (event_count s) k"]
          exI [of _ "get_count (event_count s) k + ?c - 1"], simp)
  qed
  moreover have "get_count (event_count s') d = get_count (event_count s) d + buf_count ''seq_num'' d (a # buf)"
    using ih2 c1 a by simp
  moreover have "\<exists>ec. s' = s\<lparr>event_count := ec\<rparr>" using ih3 io(2) by auto
  ultimately show ?case using ops by simp
qed

lemma bulk_write_True:
  "bulk_write ops c = (Inr (), c') \<Longrightarrow> bulk_apply ops c = (True, c')"
  by (auto simp: bulk_write_def split: if_splits prod.splits bool.splits)

lemma bulkwrite_event_chain:
  assumes hd: "hashable d" and hb: "\<forall>kp \<in> set buf. hashable (fst kp)"
    and bw: "bulkwrite_event buf (Some sizes) s = (Inr (), s')"
    and ch: "pages_chain ''descriptor'' d (PAGE_SIZE s) a
               (pages_of ''descriptor'' d (docs (event_c (volatile_db s)))) (get_count (event_count s) d)"
  shows "pages_chain ''descriptor'' d (PAGE_SIZE s') a
               (pages_of ''descriptor'' d (docs (event_c (volatile_db s')))) (get_count (event_count s') d)"
    and "get_count (event_count s') d = get_count (event_count s) d + buf_count ''seq_num'' d buf"
    and "PAGE_SIZE s' = PAGE_SIZE s"
proof -
  from bw obtain ops s1 c where eo: "event_operations buf sizes s = (Inr ops, s1)"
    and b: "bulk_write ops (event_c (volatile_db s1)) = (Inr (), c)"
    and s': "s' = s1\<lparr>volatile_db := (volatile_db s1)\<lparr>event_c := c\<rparr>\<rparr>"
    by (auto simp: bulkwrite_event_def split: prod.splits sum.splits)
  from event_operations_chain [OF hd eo hb] obtain ec where
    oc: "ops_chain ''descriptor'' d (PAGE_SIZE s) (get_count (event_count s) d) ops
        (get_count (event_count s1) d)"
    and cnt: "get_count (event_count s1) d = get_count (event_count s) d + buf_count ''seq_num'' d buf"
    and s1: "s1 = s\<lparr>event_count := ec\<rparr>"
    by blast
  have v: "volatile_db s1 = volatile_db s" "PAGE_SIZE s1 = PAGE_SIZE s" using s1 by simp_all
  have k: "''descriptor'' \<notin> {''size'', ''first_index'', ''last_index'', ''_id''}" by simp
  from bulk_apply_chain [OF k hd bulk_write_True [OF b] oc] ch v
  have "pages_chain ''descriptor'' d (PAGE_SIZE s) a (pages_of ''descriptor'' d (docs c))
          (get_count (event_count s1) d)" by simp
  then show "pages_chain ''descriptor'' d (PAGE_SIZE s') a
               (pages_of ''descriptor'' d (docs (event_c (volatile_db s')))) (get_count (event_count s') d)"
    using s' v by simp
  show "get_count (event_count s') d = get_count (event_count s) d + buf_count ''seq_num'' d buf"
    using cnt s' by simp
  show "PAGE_SIZE s' = PAGE_SIZE s" using s' v by simp
qed

lemma batch_count_Nil [simp]: "batch_count key d [] = 0"
  by (simp add: batch_count_def)

lemma batch_count_Cons [simp]:
  "batch_count key d ((buf, sizes) # bs) = buf_count key d buf + batch_count key d bs"
  by (simp add: batch_count_def buf_count_def)

lemma run_event_batches_chain:
  assumes hd: "hashable d"
  shows "run_event_batches batches s = (Inr (), s') \<Longrightarrow>
     \<forall>b \<in> set batches. \<forall>kp \<in> set (fst b). hashable (fst kp) \<Longrightarrow>
     pages_chain ''descriptor'' d (PAGE_SIZE s) a
        (pages_of ''descriptor'' d (docs (event_c (volatile_db s)))) (get_count (event_count s) d) \<Longrightarrow>
     pages_chain ''descriptor'' d (PAGE_SIZE s) a
        (pages_of ''descriptor'' d (docs (event_c (volatile_db s')))) (get_count (event_count s') d) \<and>
     get_count (event_count s') d = get_count (event_count s) d + batch_count ''seq_num'' d batches"
proof (induction batches arbitrary: s)
  case Nil
  then show ?case by simp
next
  case (Cons b bs)
  obtain buf sizes where b: "b = (buf, sizes)" by (cases b)
  from Cons.prems(1) b obtain s1 where 1: "bulkwrite_event buf (Some sizes) s = (Inr (), s1)"
    and 2: "run_event_batches bs s1 = (Inr (), s')"
    by (auto split: prod.splits sum.splits)
  have hb: "\<forall>kp \<in> set buf. hashable (fst kp)" using Cons.prems(2) b by simp
  note r = bulkwrite_event_chain [OF hd hb 1 Cons.prems(3)]
  have hbs: "\<forall>b \<in> set bs. \<forall>kp \<in> set (fst b). hashable (fst kp)" using Cons.prems(2) by simp
  have "pages_chain ''descriptor'' d (PAGE_SIZE s1) a
        (pages_of ''descriptor'' d (docs (event_c (volatile_db s')))) (get_count (event_count s') d) \<and>
     get_count (event_count s') d = get_count (event_count s1) d + batch_count ''seq_num'' d bs"
    using Cons.IH [OF 2 hbs r(1)] .
  then show ?case using r(2,3) b by auto
qed

lemma index_range_eq:
  "map_of p ''first_index'' = Some (VInt a) \<Longrightarrow> map_of p ''last_index'' = Some (VInt b) \<Longrightarrow>
   index_range p = {a..b}"
  by (simp add: index_range_def)

lemma pages_chain_cover:
  "pages_chain key d PS a ps n \<Longrightarrow>
     a \<le> n \<and> (\<Union>p \<in> set ps. index_range p) = {a..<n} \<and> (\<forall>p \<in> set ps. has_indices p)"
proof (induction ps arbitrary: a)
  case Nil
  then show ?case by simp
next
  case (Cons p ps)
  then obtain b where fi: "map_of p ''first_index'' = Some (VInt a)"
    and la: "map_of p ''last_index'' = Some (VInt b)" and ab: "a \<le> b + 1"
    and rest: "pages_chain key d PS (b + 1) ps n"
    by (auto simp: pages_chain_Cons)
  from Cons.IH [OF rest] have le: "b + 1 \<le> n" and un: "(\<Union>p \<in> set ps. index_range p) = {b + 1..<n}"
    and hi: "\<forall>p \<in> set ps. has_indices p" by auto
  have "{a..b} \<union> {b + 1..<n} = {a..<n}" using ab le by auto
  then show ?case using index_range_eq [OF fi la] un hi le ab fi la by (simp add: has_indices_def)
qed

lemma pages_chain_disjoint:
  "pages_chain key d PS a ps n \<Longrightarrow> i < j \<Longrightarrow> j < length ps \<Longrightarrow>
     index_range (ps ! i) \<inter> index_range (ps ! j) = {}"
proof (induction ps arbitrary: a i j)
  case Nil
  then show ?case by simp
next
  case (Cons p ps)
  then obtain b where fi: "map_of p ''first_index'' = Some (VInt a)"
    and la: "map_of p ''last_index'' = Some (VInt b)"
    and rest: "pages_chain key d PS (b + 1) ps n"
    by (auto simp: pages_chain_Cons)
  obtain j' where j: "j = Suc j'" using Cons.prems(2) by (cases j) auto
  have j'l: "j' < length ps" using Cons.prems(3) j by simp
  show ?case
  proof (cases i)
    case 0
    have "index_range (ps ! j') \<subseteq> (\<Union>p \<in> set ps. index_range p)"
      using nth_mem [OF j'l] by blast
    also have "\<dots> = {b + 1..<n}" using pages_chain_cover [OF rest] by simp
    finally have "index_range (ps ! j') \<subseteq> {b + 1..<n}" .
    then show ?thesis using 0 j index_range_eq [OF fi la] by auto
  next
    case (Suc i')
    then have "i' < j'" using Cons.prems(2) j by simp
    from Cons.IH [OF rest this j'l] show ?thesis using Suc j by simp
  qed
qed

lemma updateone_datumpage_index_op:
  assumes "updateone_datumpage k p sz s = (u, s1)"
  shows "index_op ''resource'' k (PAGE_SIZE s) (get_count (datum_count s) k)
           (get_count (datum_count s) k + int (length (get_list (arrays p) ''datum_id'')) - 1) u"
    and "s1 = s\<lparr>datum_count := AList.update k
                 (get_count (datum_count s) k + int (length (get_list (arrays p) ''datum_id'')))
                 (datum_count s)\<rparr>"
proof -
  let ?pushes = "[(''datum_id'', Push (get_list (arrays p) ''datum_id''))]
             @ map (\<lambda>(key, value_array). (''datum_kwargs.'' @ key, Push value_array))
                          (get_list (frames p) ''datum_kwargs'')"
  have pk: "\<forall>km \<in> set ?pushes. top_key (fst km) \<notin> {''resource'', ''size'', ''first_index'', ''last_index''}"
    by auto
  have u: "u_update u = ?pushes @ [(''size'', Inc (int sz)),
                (''first_index'', Min (get_count (datum_count s) k)),
                (''last_index'', Max (get_count (datum_count s) k
                     + int (length (get_list (arrays p) ''datum_id'')) - 1))]"
    using assms by (auto simp: updateone_datumpage_def Let_def)
  have f: "u_filter u = [(''resource'', Eq k), (''size'', Lt (PAGE_SIZE s))]" "u_upsert u"
    using assms by (auto simp: updateone_datumpage_def Let_def)
  show "index_op ''resource'' k (PAGE_SIZE s) (get_count (datum_count s) k)
           (get_count (datum_count s) k + int (length (get_list (arrays p) ''datum_id'')) - 1) u"
    unfolding index_op_def using u f pk by blast
  show "s1 = s\<lparr>datum_count := AList.update k
                 (get_count (datum_count s) k + int (length (get_list (arrays p) ''datum_id'')))
                 (datum_count s)\<rparr>"
    using assms by (auto simp: updateone_datumpage_def Let_def)
qed

lemma datum_operations_chain:
  assumes hd: "hashable d"
  shows "datum_operations buf sizes s = (Inr ops, s') \<Longrightarrow> \<forall>kp \<in> set buf. hashable (fst kp) \<Longrightarrow>
     ops_chain ''resource'' d (PAGE_SIZE s) (get_count (datum_count s) d) ops
        (get_count (datum_count s') d) \<and>
     get_count (datum_count s') d = get_count (datum_count s) d + buf_count ''datum_id'' d buf \<and>
     (\<exists>ec. s' = s\<lparr>datum_count := ec\<rparr>)"
proof (induction buf arbitrary: s ops)
  case Nil
  have "s = s\<lparr>datum_count := datum_count s\<rparr>" by simp
  with Nil show ?case by (metis Pair_inject datum_operations.simps(1) ops_chain.simps(1)
        buf_count_Nil add.right_neutral sum.inject(2))
next
  case (Cons a buf)
  obtain k p where a: "a = (k, p)" by (cases a)
  from Cons.prems(1) a obtain sz where sz: "map_of sizes k = Some sz"
    by (auto split: option.splits)
  obtain u s1 where u: "updateone_datumpage k p sz s = (u, s1)" by (cases "updateone_datumpage k p sz s")
  from Cons.prems(1) a sz u obtain us where us: "datum_operations buf sizes s1 = (Inr us, s')"
    and ops: "ops = u # us"
    by (auto split: prod.splits sum.splits)
  let ?c = "int (length (get_list (arrays p) ''datum_id''))"
  note io = updateone_datumpage_index_op [OF u]
  have ps1: "PAGE_SIZE s1 = PAGE_SIZE s" using io(2) by simp
  have hk: "hashable k" using Cons.prems(2) a by simp
  have hb: "\<forall>kp \<in> set buf. hashable (fst kp)" using Cons.prems(2) by simp
  from Cons.IH [OF us hb] ps1 have
    ih1: "ops_chain ''resource'' d (PAGE_SIZE s) (get_count (datum_count s1) d) us
        (get_count (datum_count s') d)"
    and ih2: "get_count (datum_count s') d = get_count (datum_count s1) d + buf_count ''datum_id'' d buf"
    and ih3: "\<exists>ec. s' = s1\<lparr>datum_count := ec\<rparr>"
    by auto
  have c1: "get_count (datum_count s1) d = (if k = d then get_count (datum_count s) d + ?c
              else get_count (datum_count s) d)"
    using io(2) by auto
  have "ops_chain ''resource'' d (PAGE_SIZE s) (get_count (datum_count s) d) (u # us)
        (get_count (datum_count s') d)"
  proof (cases "k = d")
    case True
    have "index_op ''resource'' d (PAGE_SIZE s) (get_count (datum_count s) d)
           (get_count (datum_count s) d + ?c - 1) u" using io(1) True by simp
    moreover have "ops_chain ''resource'' d (PAGE_SIZE s) (get_count (datum_count s) d + ?c - 1 + 1) us
        (get_count (datum_count s') d)" using ih1 c1 True by simp
    moreover have "get_count (datum_count s) d \<le> get_count (datum_count s) d + ?c - 1 + 1" by simp
    ultimately show ?thesis using hd
      by (subst ops_chain.simps) (intro exI [of _ d] exI [of _ "get_count (datum_count s) d"]
          exI [of _ "get_count (datum_count s) d + ?c - 1"], simp)
  next
    case False
    have "index_op ''resource'' k (PAGE_SIZE s) (get_count (datum_count s) k)
           (get_count (datum_count s) k + ?c - 1) u" using io(1) .
    moreover have "ops_chain ''resource'' d (PAGE_SIZE s) (get_count (datum_count s) d) us
        (get_count (datum_count s') d)" using ih1 c1 False by simp
    moreover have "get_count (datum_count s) k \<le> get_count (datum_count s) k + ?c - 1 + 1" by simp
    ultimately show ?thesis using hk False
      by (subst ops_chain.simps) (intro exI [of _ k] exI [of _ "get_count (datum_count s) k"]
          exI [of _ "get_count (datum_count s) k + ?c - 1"], simp)
  qed
  moreover have "get_count (datum_count s') d = get_count (datum_count s) d + buf_count ''datum_id'' d (a # buf)"
    using ih2 c1 a by simp
  moreover have "\<exists>ec. s' = s\<lparr>datum_count := ec\<rparr>" using ih3 io(2) by auto
  ultimately show ?case using ops by simp
qed

lemma bulkwrite_datum_chain:
  assumes hd: "hashable d" and hb: "\<forall>kp \<in> set buf. hashable (fst kp)"
    and bw: "bulkwrite_datum buf (Some sizes) s = (Inr (), s')"
    and ch: "pages_chain ''resource'' d (PAGE_SIZE s) a
               (pages_of ''resource'' d (docs (datum_c (volatile_db s)))) (get_count (datum_count s) d)"
  shows "pages_chain ''resource'' d (PAGE_SIZE s') a
               (pages_of ''resource'' d (docs (datum_c (volatile_db s')))) (get_count (datum_count s') d)"
    and "get_count (datum_count s') d = get_count (datum_count s) d + buf_count ''datum_id'' d buf"
    and "PAGE_SIZE s' = PAGE_SIZE s"
proof -
  from bw obtain ops s1 c where eo: "datum_operations buf sizes s = (Inr ops, s1)"
    and b: "bulk_write ops (datum_c (volatile_db s1)) = (Inr (), c)"
    and s': "s' = s1\<lparr>volatile_db := (volatile_db s1)\<lparr>datum_c := c\<rparr>\<rparr>"
    by (auto simp: bulkwrite_datum_def split: prod.splits sum.splits)
  from datum_operations_chain [OF hd eo hb] obtain ec where
    oc: "ops_chain ''resource'' d (PAGE_SIZE s) (get_count (datum_count s) d) ops
        (get_count (datum_count s1) d)"
    and cnt: "get_count (datum_count s1) d = get_count (datum_count s) d + buf_count ''datum_id'' d buf"
    and s1: "s1 = s\<lparr>datum_count := ec\<rparr>"
    by blast
  have v: "volatile_db s1 = volatile_db s" "PAGE_SIZE s1 = PAGE_SIZE s" using s1 by simp_all
  have k: "''resource'' \<notin> {''size'', ''first_index'', ''last_index'', ''_id''}" by simp
  from bulk_apply_chain [OF k hd bulk_write_True [OF b] oc] ch v
  have "pages_chain ''resource'' d (PAGE_SIZE s) a (pages_of ''resource'' d (docs c))
          (get_count (datum_count s1) d)" by simp
  then show "pages_chain ''resource'' d (PAGE_SIZE s') a
               (pages_of ''resource'' d (docs (datum_c (volatile_db s')))) (get_count (datum_count s') d)"
    using s' v by simp
  show "get_count (datum_count s') d = get_count (datum_count s) d + buf_count ''datum_id'' d buf"
    using cnt s' by simp
  show "PAGE_SIZE s' = PAGE_SIZE s" using s' v by simp
qed

lemma run_datum_batches_chain:
  assumes hd: "hashable d"
  shows "run_datum_batches batches s = (Inr (), s') \<Longrightarrow>
     \<forall>b \<in> set batches. \<forall>kp \<in> set (fst b). hashable (fst kp) \<Longrightarrow>
     pages_chain ''resource'' d (PAGE_SIZE s) a
        (pages_of ''resource'' d (docs (datum_c (volatile_db s)))) (get_count (datum_count s) d) \<Longrightarrow>
     pages_chain ''resource'' d (PAGE_SIZE s) a
        (pages_of ''resource'' d (docs (datum_c (volatile_db s')))) (get_count (datum_count s') d) \<and>
     get_count (datum_count s') d = get_count (datum_count s) d + batch_count ''datum_id'' d batches"
proof (induction batches arbitrary: s)
  case Nil
  then show ?case by simp
next
  case (Cons b bs)
  obtain buf sizes where b: "b = (buf, sizes)" by (cases b)
  from Cons.prems(1) b obtain s1 where 1: "bulkwrite_datum buf (Some sizes) s = (Inr (), s1)"
    and 2: "run_datum_batches bs s1 = (Inr (), s')"
    by (auto split: prod.splits sum.splits)
  have hb: "\<forall>kp \<in> set buf. hashable (fst kp)" using Cons.prems(2) b by simp
  note r = bulkwrite_datum_chain [OF hd hb 1 Cons.prems(3)]
  have hbs: "\<forall>b \<in> set bs. \<forall>kp \<in> set (fst b). hashable (fst kp)" using Cons.prems(2) by simp
  have "pages_chain ''resource'' d (PAGE_SIZE s1) a
        (pages_of ''resource'' d (docs (datum_c (volatile_db s')))) (get_count (datum_count s') d) \<and>
     get_count (datum_count s') d = get_count (datum_count s1) d + batch_count ''datum_id'' d bs"
    using Cons.IH [OF 2 hbs r(1)] .
  then show ?case using r(2,3) b by auto
qed

lemma pages_chain_covers:
  assumes "pages_chain key d PS 0 ps n"
  shows "covers ps n"
proof -
  have "\<forall>i < length ps. \<forall>j < length ps. i \<noteq> j \<longrightarrow> index_range (ps ! i) \<inter> index_range (ps ! j) = {}"
  proof (intro allI impI)
    fix i j
    assume "i < length ps" "j < length ps" "i \<noteq> j"
    then consider "i < j" | "j < i" by linarith
    then show "index_range (ps ! i) \<inter> index_range (ps ! j) = {}"
    proof cases
      case 1
      then show ?thesis using pages_chain_disjoint [OF assms 1 \<open>j < length ps\<close>] by simp
    next
      case 2
      then show ?thesis using pages_chain_disjoint [OF assms 2 \<open>i < length ps\<close>] by blast
    qed
  qed
  then show ?thesis using pages_chain_cover [OF assms] by (simp add: covers_def)
qed

text \<open>
  Claim C2 (index monotonicity). Start from a store without pages of the stream and a
  counter at zero, and let any sequence of batches of the Page Writer succeed. Then the
  pages of the stream record index ranges that are pairwise disjoint and together are
  exactly \<open>0..N-1\<close>, where \<open>N\<close>, the counter of the stream, is the number of documents
  the batches held for the stream. Each update advances the counter by the count of its
  batch and sets \<open>first_index\<close> to the minimum of its value and the counter before the
  batch, \<open>last_index\<close> to the maximum of its value and the counter after the batch minus
  one. The same holds of datum pages.
\<close>

theorem index_ranges_cover:
  "(hashable d \<and> (\<forall>b \<in> set batches. \<forall>kp \<in> set (fst b). hashable (fst kp)) \<and>
    pages_of ''descriptor'' d (docs (event_c (volatile_db s))) = [] \<and>
    get_count (event_count s) d = 0 \<and>
    run_event_batches batches s = (Inr (), s') \<longrightarrow>
      get_count (event_count s') d = batch_count ''seq_num'' d batches \<and>
      covers (pages_of ''descriptor'' d (docs (event_c (volatile_db s'))))
        (get_count (event_count s') d)) \<and>
   (hashable r \<and> (\<forall>b \<in> set dbatches. \<forall>kp \<in> set (fst b). hashable (fst kp)) \<and>
    pages_of ''resource'' r (docs (datum_c (volatile_db t))) = [] \<and>
    get_count (datum_count t) r = 0 \<and>
    run_datum_batches dbatches t = (Inr (), t') \<longrightarrow>
      get_count (datum_count t') r = batch_count ''datum_id'' r dbatches \<and>
      covers (pages_of ''resource'' r (docs (datum_c (volatile_db t'))))
        (get_count (datum_count t') r)) \<and>
   (updateone_eventpage d p sz s = (u, s1) \<longrightarrow>
      get_count (event_count s1) d =
        get_count (event_count s) d + int (length (get_list (arrays p) ''seq_num'')) \<and>
      (''first_index'', Min (get_count (event_count s) d)) \<in> set (u_update u) \<and>
      (''last_index'', Max (get_count (event_count s1) d - 1)) \<in> set (u_update u)) \<and>
   (updateone_datumpage r q dsz t = (v, t1) \<longrightarrow>
      get_count (datum_count t1) r =
        get_count (datum_count t) r + int (length (get_list (arrays q) ''datum_id'')) \<and>
      (''first_index'', Min (get_count (datum_count t) r)) \<in> set (u_update v) \<and>
      (''last_index'', Max (get_count (datum_count t1) r - 1)) \<in> set (u_update v)) \<and>
   modify (Min lo) (Some (VInt a)) = Inr (VInt (min a lo)) \<and>
   modify (Max hi) (Some (VInt b)) = Inr (VInt (max b hi))"
proof (intro conjI impI)
  assume h: "hashable d \<and> (\<forall>b \<in> set batches. \<forall>kp \<in> set (fst b). hashable (fst kp)) \<and>
    pages_of ''descriptor'' d (docs (event_c (volatile_db s))) = [] \<and>
    get_count (event_count s) d = 0 \<and>
    run_event_batches batches s = (Inr (), s')"
  then have ch: "pages_chain ''descriptor'' d (PAGE_SIZE s) 0
        (pages_of ''descriptor'' d (docs (event_c (volatile_db s)))) (get_count (event_count s) d)"
    by simp
  from h have hd: "hashable d" and hb: "\<forall>b \<in> set batches. \<forall>kp \<in> set (fst b). hashable (fst kp)"
    and run: "run_event_batches batches s = (Inr (), s')" and z: "get_count (event_count s) d = 0"
    by blast+
  from run_event_batches_chain [OF hd run hb ch]
  have c: "pages_chain ''descriptor'' d (PAGE_SIZE s) 0
        (pages_of ''descriptor'' d (docs (event_c (volatile_db s')))) (get_count (event_count s') d)"
    and n: "get_count (event_count s') d = get_count (event_count s) d + batch_count ''seq_num'' d batches"
    by blast+
  show "get_count (event_count s') d = batch_count ''seq_num'' d batches" using n z by simp
  show "covers (pages_of ''descriptor'' d (docs (event_c (volatile_db s'))))
        (get_count (event_count s') d)" using c by (rule pages_chain_covers)
next
  assume h: "hashable r \<and> (\<forall>b \<in> set dbatches. \<forall>kp \<in> set (fst b). hashable (fst kp)) \<and>
    pages_of ''resource'' r (docs (datum_c (volatile_db t))) = [] \<and>
    get_count (datum_count t) r = 0 \<and>
    run_datum_batches dbatches t = (Inr (), t')"
  then have ch: "pages_chain ''resource'' r (PAGE_SIZE t) 0
        (pages_of ''resource'' r (docs (datum_c (volatile_db t)))) (get_count (datum_count t) r)"
    by simp
  from h have hd: "hashable r" and hb: "\<forall>b \<in> set dbatches. \<forall>kp \<in> set (fst b). hashable (fst kp)"
    and run: "run_datum_batches dbatches t = (Inr (), t')" and z: "get_count (datum_count t) r = 0"
    by blast+
  from run_datum_batches_chain [OF hd run hb ch]
  have c: "pages_chain ''resource'' r (PAGE_SIZE t) 0
        (pages_of ''resource'' r (docs (datum_c (volatile_db t')))) (get_count (datum_count t') r)"
    and n: "get_count (datum_count t') r = get_count (datum_count t) r + batch_count ''datum_id'' r dbatches"
    by blast+
  show "get_count (datum_count t') r = batch_count ''datum_id'' r dbatches" using n z by simp
  show "covers (pages_of ''resource'' r (docs (datum_c (volatile_db t'))))
        (get_count (datum_count t') r)" using c by (rule pages_chain_covers)
next
  assume u: "updateone_eventpage d p sz s = (u, s1)"
  then show "get_count (event_count s1) d =
        get_count (event_count s) d + int (length (get_list (arrays p) ''seq_num''))"
    by (auto simp: updateone_eventpage_def Let_def)
  from u show "(''first_index'', Min (get_count (event_count s) d)) \<in> set (u_update u)"
    by (auto simp: updateone_eventpage_def Let_def)
  from u show "(''last_index'', Max (get_count (event_count s1) d - 1)) \<in> set (u_update u)"
    by (auto simp: updateone_eventpage_def Let_def)
next
  assume u: "updateone_datumpage r q dsz t = (v, t1)"
  then show "get_count (datum_count t1) r =
        get_count (datum_count t) r + int (length (get_list (arrays q) ''datum_id''))"
    by (auto simp: updateone_datumpage_def Let_def)
  from u show "(''first_index'', Min (get_count (datum_count t) r)) \<in> set (u_update v)"
    by (auto simp: updateone_datumpage_def Let_def)
  from u show "(''last_index'', Max (get_count (datum_count t1) r - 1)) \<in> set (u_update v)"
    by (auto simp: updateone_datumpage_def Let_def)
qed simp_all

theorem index_ranges_cover_witness:
  "fst (run_event_batches ex_event_batches ex_serializer) = Inr () \<and>
   covers (pages_of ''descriptor'' (VStr ''d1'')
      (docs (event_c (volatile_db (snd (run_event_batches ex_event_batches ex_serializer)))))) 5 \<and>
   fst (run_datum_batches ex_datum_batches ex_serializer) = Inr () \<and>
   covers (pages_of ''resource'' (VStr ''r1'')
      (docs (datum_c (volatile_db (snd (run_datum_batches ex_datum_batches ex_serializer)))))) 3 \<and>
   map (\<lambda>p. (map_of p ''first_index'', map_of p ''last_index''))
     (pages_of ''descriptor'' (VStr ''d1'')
        (docs (event_c (volatile_db (snd (run_event_batches ex_event_batches ex_serializer)))))) =
     [(Some (VInt 0), Some (VInt 2)), (Some (VInt 3), Some (VInt 4))]"
proof -
  let ?s' = "snd (run_event_batches ex_event_batches ex_serializer)"
  let ?t' = "snd (run_datum_batches ex_datum_batches ex_serializer)"
  have e1: "fst (run_event_batches ex_event_batches ex_serializer) = Inr ()" by code_simp
  have d1: "fst (run_datum_batches ex_datum_batches ex_serializer) = Inr ()" by code_simp
  have e2: "run_event_batches ex_event_batches ex_serializer = (Inr (), ?s')"
    using e1 by (simp add: prod_eq_iff)
  have d2: "run_datum_batches ex_datum_batches ex_serializer = (Inr (), ?t')"
    using d1 by (simp add: prod_eq_iff)
  have e3: "pages_of ''descriptor'' (VStr ''d1'') (docs (event_c (volatile_db ex_serializer))) = []"
    "get_count (event_count ex_serializer) (VStr ''d1'') = 0"
    "\<forall>b \<in> set ex_event_batches. \<forall>kp \<in> set (fst b). hashable (fst kp)"
    by (simp_all add: ex_serializer_def empty_db_def empty_collection_def pages_of_def
        get_count_def ex_event_batches_def)
  have d3: "pages_of ''resource'' (VStr ''r1'') (docs (datum_c (volatile_db ex_serializer))) = []"
    "get_count (datum_count ex_serializer) (VStr ''r1'') = 0"
    "\<forall>b \<in> set ex_datum_batches. \<forall>kp \<in> set (fst b). hashable (fst kp)"
    by (simp_all add: ex_serializer_def empty_db_def empty_collection_def pages_of_def
        get_count_def ex_datum_batches_def)
  have e4: "get_count (event_count ?s') (VStr ''d1'') = 5" by code_simp
  have d4: "get_count (datum_count ?t') (VStr ''r1'') = 3" by code_simp
  have e5: "map (\<lambda>p. (map_of p ''first_index'', map_of p ''last_index''))
     (pages_of ''descriptor'' (VStr ''d1'') (docs (event_c (volatile_db ?s')))) =
     [(Some (VInt 0), Some (VInt 2)), (Some (VInt 3), Some (VInt 4))]" by code_simp
  note t = index_ranges_cover [where d = "VStr ''d1''" and batches = ex_event_batches
      and s = ex_serializer and s' = ?s' and r = "VStr ''r1''" and dbatches = ex_datum_batches
      and t = ex_serializer and t' = ?t']
  have h: "hashable (VStr ''d1'')" "hashable (VStr ''r1'')" by simp_all
  have "covers (pages_of ''descriptor'' (VStr ''d1'') (docs (event_c (volatile_db ?s'))))
          (get_count (event_count ?s') (VStr ''d1''))"
    using t [THEN conjunct1] e2 e3 h by blast
  moreover have "covers (pages_of ''resource'' (VStr ''r1'') (docs (datum_c (volatile_db ?t'))))
          (get_count (datum_count ?t') (VStr ''r1''))"
    using t [THEN conjunct2, THEN conjunct1] d2 d3 h by blast
  ultimately show ?thesis using e1 d1 e4 d4 e5 by simp
qed

section \<open>Properties of the handlers\<close>

lemma seq_Inr:
  "seq m f s = (Inr r, s') \<Longrightarrow> \<exists>x s1. m s = (Inr x, s1) \<and> f x s1 = (Inr r, s')"
  by (auto simp: seq_def split: prod.splits sum.splits)

lemma insert_header_Inr:
  "insert_header name d s = (r, s') \<Longrightarrow> start_found s' = start_found s"
  by (auto simp: insert_header_def split: prod.splits)

lemma start_found_after:
  assumes "start d1 s0 = (Inr r, s1)"
  shows "start_found s1"
proof -
  from assms obtain s2 where 1: "check_start d1 s0 = (Inr (), s2)"
    and 2: "seq (\<lambda>s. case map_of d1 ''uid'' of
                 None \<Rightarrow> (Inl (KeyError ''uid''), s)
               | Some uid \<Rightarrow> (Inr (), s\<lparr>run_uid := uid\<rparr>)) (\<lambda>_.
     seq (insert_header ''start'' (VDoc d1)) (\<lambda>_.
     seq (insert_header ''event_count'' (VDoc d1)) (\<lambda>_.
     seq (insert_header ''datum_count'' (VDoc d1)) (\<lambda>_ s. (Inr d1, s))))) s2 = (Inr r, s1)"
    unfolding start_def by (auto dest: seq_Inr)
  from 1 have f2: "start_found s2" by (auto simp: check_start_def split: if_splits)
  from seq_Inr [OF 2] obtain uid where
    4: "seq (insert_header ''start'' (VDoc d1)) (\<lambda>_.
     seq (insert_header ''event_count'' (VDoc d1)) (\<lambda>_.
     seq (insert_header ''datum_count'' (VDoc d1)) (\<lambda>_ s. (Inr d1, s)))) (s2\<lparr>run_uid := uid\<rparr>)
       = (Inr r, s1)"
    by (cases "map_of d1 ''uid''") auto
  have 3: "start_found (s2\<lparr>run_uid := uid\<rparr>)" using f2 by simp
  from seq_Inr [OF 4] obtain s4 where 5: "insert_header ''start'' (VDoc d1) (s2\<lparr>run_uid := uid\<rparr>) = (Inr (), s4)"
    and 6: "seq (insert_header ''event_count'' (VDoc d1)) (\<lambda>_.
     seq (insert_header ''datum_count'' (VDoc d1)) (\<lambda>_ s. (Inr d1, s))) s4 = (Inr r, s1)"
    by auto
  from seq_Inr [OF 6] obtain s5 where 7: "insert_header ''event_count'' (VDoc d1) s4 = (Inr (), s5)"
    and 8: "seq (insert_header ''datum_count'' (VDoc d1)) (\<lambda>_ s. (Inr d1, s)) s5 = (Inr r, s1)"
    by auto
  from seq_Inr [OF 8] have 9: "insert_header ''datum_count'' (VDoc d1) s5 = (Inr (), s1)"
    by auto
  show ?thesis
    using 3 insert_header_Inr [OF 5] insert_header_Inr [OF 7] insert_header_Inr [OF 9] by simp
qed

lemma start_rejected: "start_found s \<Longrightarrow> start d s = (Inl two_starts, s)"
  by (simp add: start_def seq_def check_start_def)


text \<open>
  Claim C7 (one start document). On a pipeline that has accepted a start document, a second
  \<open>start\<close> raises the usage error and changes nothing: the state after the call, with the
  run identifier and the header in the volatile store, is the state before it.
\<close>

theorem second_start_rejected:
  "(start d1 s0 = (Inr r, s1) \<longrightarrow>
      start d2 s1 = (Inl two_starts, s1) \<and>
      run_uid (snd (start d2 s1)) = run_uid s1 \<and>
      volatile_db (snd (start d2 s1)) = volatile_db s1) \<and>
   (start_found s \<longrightarrow> start d2 s = (Inl two_starts, s))"
proof (intro conjI impI)
  assume "start d1 s0 = (Inr r, s1)"
  then have "start_found s1" by (rule start_found_after)
  then have "start d2 s1 = (Inl two_starts, s1)" by (rule start_rejected)
  then show "start d2 s1 = (Inl two_starts, s1)"
    "run_uid (snd (start d2 s1)) = run_uid s1"
    "volatile_db (snd (start d2 s1)) = volatile_db s1"
    by simp_all
next
  assume "start_found s"
  then show "start d2 s = (Inl two_starts, s)" by (rule start_rejected)
qed

theorem second_start_rejected_witness:
  "fst (start ex_start ex_serializer) = Inr ex_start \<and>
   start_found (snd (start ex_start ex_serializer)) \<and>
   start [(''uid'', VStr ''run2'')] (snd (start ex_start ex_serializer)) =
     (Inl two_starts, snd (start ex_start ex_serializer))"
proof -
  have 1: "fst (start ex_start ex_serializer) = Inr ex_start" by code_simp
  then have 2: "start ex_start ex_serializer = (Inr ex_start, snd (start ex_start ex_serializer))"
    by (simp add: prod_eq_iff)
  have 3: "start_found (snd (start ex_start ex_serializer))" by code_simp
  from second_start_rejected [of ex_start ex_serializer ex_start
      "snd (start ex_start ex_serializer)" "[(''uid'', VStr ''run2'')]"
      "snd (start ex_start ex_serializer)"] 1 2 3
  show ?thesis by blast
qed

text \<open>
  Claim C8 (page documents bypass the buffer). The claim asks that \<open>event_page\<close> and
  \<open>datum_page\<close> write the page to the volatile store and return the document. The
  handlers call the Page Writer without its second argument: for every document and state
  the call raises, nothing is written and no document is returned.
\<close>

theorem page_handlers_raise:
  "(\<exists>e. fst (event_page d s) = Inl e) \<and> snd (event_page d s) = s \<and>
   (\<exists>e. fst (datum_page d s) = Inl e) \<and> snd (datum_page d s) = s \<and>
   event_page ex_event_page_doc ex_serializer =
     (Inl (TypeError ''missing 1 required positional argument: dump_sizes''), ex_serializer) \<and>
   datum_page ex_datum_page_doc ex_serializer =
     (Inl (TypeError ''missing 1 required positional argument: dump_sizes''), ex_serializer)"
  by (auto simp: event_page_def datum_page_def bulkwrite_event_def bulkwrite_datum_def seq_def
      ex_event_page_doc_def ex_datum_page_doc_def split: option.splits)

section \<open>Properties of the Stream Workers\<close>

lemma embed_frame_max_size [simp]: "max_size (snd (embed_frame d key inner e)) = max_size e"
  by (induction inner arbitrary: e) (auto simp: upd_page_def split: sum.splits)

lemma embed_item_max_size [simp]: "max_size (snd (embed_item d k v e)) = max_size e"
  by (auto simp: embed_item_def upd_page_def split: sum.splits option.splits val.splits)

lemma embed_items_max_size [simp]: "max_size (snd (embed_items d items e)) = max_size e"
proof (induction items arbitrary: e)
  case Nil
  then show ?case by simp
next
  case (Cons a items)
  obtain k v where a: "a = (k, v)" by (cases a)
  obtain r e1 where r: "embed_item d k v e = (r, e1)" by (cases "embed_item d k v e")
  then have "max_size e1 = max_size e" using embed_item_max_size [of d k v e] by simp
  then show ?case using a r Cons.IH [of e1] by (cases r) auto
qed

lemma insert_doc_max_size [simp]: "max_size (snd (insert_doc bson_size d e)) = max_size e"
proof -
  obtain r e1 where r: "embed_items d d e = (r, e1)" by (cases "embed_items d d e")
  then have "max_size e1 = max_size e" using embed_items_max_size [of d d e] by simp
  then show ?thesis using r
    by (cases r) (auto simp: insert_doc_def Let_def split: sum.splits)
qed

lemma dump_max_size [simp]: "max_size (snd (dump e)) = max_size e"
  by (simp add: dump_def)

lemma run_ops_max_size [simp]: "max_size (run_ops bson_size ops e) = max_size e"
  by (induction bson_size ops e rule: run_ops.induct) simp_all

lemma insert_doc_oversize:
  "bson_size d > max_size e \<Longrightarrow> insert_doc bson_size d e = (Inr (Some d), e)"
  by (simp add: insert_doc_def)

lemma event_operations_embedder [simp]:
  "event_embedder (snd (event_operations buf sizes s)) = event_embedder s"
proof (induction buf arbitrary: s)
  case Nil
  then show ?case by simp
next
  case (Cons a buf)
  obtain k p where a: "a = (k, p)" by (cases a)
  show ?case
  proof (cases "map_of sizes k")
    case None
    then show ?thesis using a by simp
  next
    case (Some sz)
    obtain u s1 where u: "updateone_eventpage k p sz s = (u, s1)"
      by (cases "updateone_eventpage k p sz s")
    then have "event_embedder s1 = event_embedder s"
      by (auto simp: updateone_eventpage_def Let_def)
    then show ?thesis using a Some u Cons.IH [of s1]
      by (auto split: prod.splits sum.splits)
  qed
qed

lemma bulkwrite_event_embedder [simp]:
  "event_embedder (snd (bulkwrite_event buf a s)) = event_embedder s"
proof (cases a)
  case None
  then show ?thesis by (simp add: bulkwrite_event_def)
next
  case (Some sizes)
  obtain r s1 where r: "event_operations buf sizes s = (r, s1)"
    by (cases "event_operations buf sizes s")
  then have "event_embedder s1 = event_embedder s"
    using event_operations_embedder [of buf sizes s] by simp
  then show ?thesis using Some r
    by (cases r) (auto simp: bulkwrite_event_def split: prod.splits)
qed

lemma add_db_event_counts_embedder [simp]:
  "event_embedder (snd (add_db_event_counts buf s)) = event_embedder s"
  by (induction buf s rule: add_db_event_counts.induct) (auto split: val.splits)

lemma event_flush_max_size [simp]:
  "max_size (event_embedder (snd (event_flush s))) = max_size (event_embedder s)"
proof (cases "empty_emb (event_embedder s)")
  case True
  then show ?thesis by (simp add: event_flush_def)
next
  case False
  let ?s1 = "s\<lparr>event_embedder := snd (dump (event_embedder s))\<rparr>"
  obtain r s2 where r: "bulkwrite_event (pages (event_embedder s)) (Some (stream_size (event_embedder s))) ?s1 = (r, s2)"
    by (cases "bulkwrite_event (pages (event_embedder s)) (Some (stream_size (event_embedder s))) ?s1")
  then have 2: "event_embedder s2 = event_embedder ?s1"
    using bulkwrite_event_embedder [of "pages (event_embedder s)" "Some (stream_size (event_embedder s))" ?s1]
    by simp
  have 3: "event_embedder (snd (add_db_event_counts (pages (event_embedder s)) s2)) = event_embedder s2"
    by simp
  show ?thesis using False r 2 3
    by (cases r) (auto simp: event_flush_def seq_def dump_def split: prod.splits)
qed


lemma event_worker_body_oversize:
  assumes "bson_size d > max_size (event_embedder s)"
  shows "event_worker_body bson_size el (Some (Doc d)) s =
     (case event_flush s of
        (Inl e, s') \<Rightarrow> (Inl e, s')
      | (Inr _, s') \<Rightarrow> (Inr (Some (Doc d)), s'))"
  using assms
  by (simp add: event_worker_body_def seq_def insert_doc_oversize split: prod.splits sum.splits)


lemma event_worker_steps_oversize:
  "bson_size d > max_size (event_embedder s) \<Longrightarrow>
     (case event_worker_steps bson_size env i n (Some (Doc d)) s of
        (Inl e, s') \<Rightarrow> True
      | (Inr ev, s') \<Rightarrow> ev = Some (Doc d) \<and> max_size (event_embedder s') = max_size (event_embedder s))"
proof (induction n arbitrary: i s)
  case 0
  then show ?case by simp
next
  case (Suc n)
  let ?s = "s\<lparr>event_queue := event_queue s @ fst (env i)\<rparr>"
  have big: "bson_size d > max_size (event_embedder ?s)" using Suc.prems by simp
  obtain r s1 where f: "event_flush ?s = (r, s1)" by (cases "event_flush ?s")
  then have m: "max_size (event_embedder s1) = max_size (event_embedder s)"
    using event_flush_max_size [of ?s] by simp
  show ?case
  proof (cases r)
    case (Inl e)
    then show ?thesis using f event_worker_body_oversize [where bson_size = bson_size and d = d and s = ?s
          and el = "snd (env i)"] big by simp
  next
    case (Inr u)
    then have b: "event_worker_body bson_size (snd (env i)) (Some (Doc d)) ?s = (Inr (Some (Doc d)), s1)"
      using f event_worker_body_oversize [where bson_size = bson_size and d = d and s = ?s
          and el = "snd (env i)"] big by simp
    have "bson_size d > max_size (event_embedder s1)" using m Suc.prems by simp
    from Suc.IH [OF this, of "Suc i"] show ?thesis using b m by (auto split: prod.splits sum.splits)
  qed
qed

lemma event_worker_loop_oversize:
  assumes run: "event_worker_loop bson_size env i ev s = Some y"
  shows "\<forall>d. ev = Some (Doc d) \<and> max_size (event_embedder s) < bson_size d \<longrightarrow>
           (\<exists>e s'. y = (Inl e, s'))"
proof (rule event_worker_loop.raw_induct
    [where P = "\<lambda>bs en j ev s y. \<forall>d. ev = Some (Doc d) \<and> max_size (event_embedder s) < bs d \<longrightarrow>
           (\<exists>e s'. y = (Inl e, s'))", OF _ run], goal_cases)
  case (1 loop bs en j event0 s y)
  show ?case
  proof (intro allI impI)
    fix d
    assume a: "event0 = Some (Doc d) \<and> max_size (event_embedder s) < bs d"
    let ?s = "s\<lparr>event_queue := event_queue s @ fst (en j)\<rparr>"
    have big: "bs d > max_size (event_embedder ?s)" using a by simp
    obtain r s1 where f: "event_flush ?s = (r, s1)" by (cases "event_flush ?s")
    then have m: "max_size (event_embedder s1) = max_size (event_embedder s)"
      using event_flush_max_size [of ?s] by simp
    show "\<exists>e s'. y = (Inl e, s')"
    proof (cases r)
      case (Inl e)
      then have "event_worker_body bs (snd (en j)) (Some (Doc d)) ?s = (Inl e, s1)"
        using f event_worker_body_oversize [where bson_size = bs and d = d and s = ?s
          and el = "snd (en j)"] big by simp
      then show ?thesis using 1(2) a by auto
    next
      case (Inr u)
      then have "event_worker_body bs (snd (en j)) (Some (Doc d)) ?s = (Inr (Some (Doc d)), s1)"
        using f event_worker_body_oversize [where bson_size = bs and d = d and s = ?s
          and el = "snd (en j)"] big by simp
      then have "loop bs en (Suc j) (Some (Doc d)) s1 = Some y" using 1(2) a by auto
      from 1(1) [OF this] show ?thesis using a m by auto
    qed
  qed
qed

lemma event_worker_body_dequeue:
  assumes "bson_size d > max_size (event_embedder s)" and "event_queue s = Doc d # q"
  shows "event_worker_body bson_size el None s =
     (case event_flush (s\<lparr>event_queue := q\<rparr>) of
        (Inl e, s') \<Rightarrow> (Inl e, s')
      | (Inr _, s') \<Rightarrow> (Inr (Some (Doc d)), s'))"
  using assms
  by (simp add: event_worker_body_def seq_def insert_doc_oversize split: prod.splits sum.splits)

text \<open>
  Claim C10 (a document larger than the buffer). A document whose serialized size alone
  exceeds the maximum size is handed back by \<open>insert\<close> in every buffer state, the empty
  buffer included, and after any sequence of \<open>insert\<close> and \<open>dump\<close>. The event worker that
  takes such a document from its queue holds it at every later iteration, unless a flush
  raises: its loop never returns normally.
\<close>

theorem oversize_never_accepted:
  "(bson_size d > max_size e \<longrightarrow>
      insert_doc bson_size d e = (Inr (Some d), e) \<and>
      insert_doc bson_size d (snd (dump e)) = (Inr (Some d), snd (dump e)) \<and>
      empty_emb (snd (dump e)) \<and>
      (\<forall>ops. insert_doc bson_size d (run_ops bson_size ops e) =
               (Inr (Some d), run_ops bson_size ops e))) \<and>
   (bson_size d > max_size (event_embedder s) \<longrightarrow>
      (event_queue s = Doc d # q \<longrightarrow>
         event_worker_body bson_size el None s =
           (case event_flush (s\<lparr>event_queue := q\<rparr>) of
              (Inl err, s') \<Rightarrow> (Inl err, s')
            | (Inr _, s') \<Rightarrow> (Inr (Some (Doc d)), s'))) \<and>
      (\<forall>n. case event_worker_steps bson_size env i n (Some (Doc d)) s of
              (Inl err, s') \<Rightarrow> True
            | (Inr ev, s') \<Rightarrow> ev = Some (Doc d)) \<and>
      (\<forall>y. event_worker_loop bson_size env i (Some (Doc d)) s = Some y \<longrightarrow>
            (\<exists>err s'. y = (Inl err, s'))))"
proof (intro conjI impI allI)
  assume big: "bson_size d > max_size e"
  show "insert_doc bson_size d e = (Inr (Some d), e)" using big by (rule insert_doc_oversize)
  show "insert_doc bson_size d (snd (dump e)) = (Inr (Some d), snd (dump e))"
    using big by (intro insert_doc_oversize) simp
  show "empty_emb (snd (dump e))" by (simp add: dump_def empty_emb_def)
  fix ops
  show "insert_doc bson_size d (run_ops bson_size ops e) = (Inr (Some d), run_ops bson_size ops e)"
    using big by (intro insert_doc_oversize) simp
next
  assume big: "bson_size d > max_size (event_embedder s)" and q: "event_queue s = Doc d # q"
  show "event_worker_body bson_size el None s =
           (case event_flush (s\<lparr>event_queue := q\<rparr>) of
              (Inl err, s') \<Rightarrow> (Inl err, s')
            | (Inr _, s') \<Rightarrow> (Inr (Some (Doc d)), s'))"
    using big q by (rule event_worker_body_dequeue)
next
  fix n
  assume big: "bson_size d > max_size (event_embedder s)"
  show "case event_worker_steps bson_size env i n (Some (Doc d)) s of
              (Inl err, s') \<Rightarrow> True
            | (Inr ev, s') \<Rightarrow> ev = Some (Doc d)"
    using event_worker_steps_oversize [where bson_size = bson_size and d = d and s = s
        and env = env and i = i and n = n] big
    by (auto split: prod.splits sum.splits)
next
  fix y
  assume big: "bson_size d > max_size (event_embedder s)"
    and run: "event_worker_loop bson_size env i (Some (Doc d)) s = Some y"
  show "\<exists>err s'. y = (Inl err, s')"
    using event_worker_loop_oversize [OF run] big by blast
qed

theorem oversize_never_accepted_witness:
  "(\<lambda>d. 2000) (ex_event ''d1'' 1) > max_size ex_embedder \<and>
   insert_doc (\<lambda>d. 2000) (ex_event ''d1'' 1) ex_embedder =
     (Inr (Some (ex_event ''d1'' 1)), ex_embedder) \<and>
   insert_doc (\<lambda>d. 2000) (ex_event ''d1'' 1)
       (run_ops (\<lambda>d. 2000) [Insert (ex_event ''d1'' 2), Dump] ex_embedder) =
     (Inr (Some (ex_event ''d1'' 1)), run_ops (\<lambda>d. 2000) [Insert (ex_event ''d1'' 2), Dump] ex_embedder) \<and>
   fst (event_worker_steps (\<lambda>d. 2000) (\<lambda>i. ([], False)) 0 5 (Some (Doc (ex_event ''d1'' 1)))
          ex_serializer) = Inr (Some (Doc (ex_event ''d1'' 1)))"
proof -
  have 1: "(\<lambda>d. 2000) (ex_event ''d1'' 1) > max_size ex_embedder"
    by (simp add: ex_embedder_def)
  have 2: "(\<lambda>d. 2000) (ex_event ''d1'' 1) > max_size (event_embedder ex_serializer)"
    by (simp add: ex_embedder_def ex_serializer_def)
  have 3: "fst (event_worker_steps (\<lambda>d. 2000) (\<lambda>i. ([], False)) 0 5 (Some (Doc (ex_event ''d1'' 1)))
          ex_serializer) = Inr (Some (Doc (ex_event ''d1'' 1)))"
    by code_simp
  note t = oversize_never_accepted [where bson_size = "\<lambda>d. 2000" and d = "ex_event ''d1'' 1"
      and e = ex_embedder and s = ex_serializer]
  have "insert_doc (\<lambda>d. 2000) (ex_event ''d1'' 1) ex_embedder =
     (Inr (Some (ex_event ''d1'' 1)), ex_embedder) \<and>
     (\<forall>ops. insert_doc (\<lambda>d. 2000) (ex_event ''d1'' 1) (run_ops (\<lambda>d. 2000) ops ex_embedder) =
               (Inr (Some (ex_event ''d1'' 1)), run_ops (\<lambda>d. 2000) ops ex_embedder))"
    using t [THEN conjunct1] 1 by blast
  then show ?thesis using 1 3 by blast
qed

text \<open>
  Claim C3 (flush of the datum worker). The claim asks that a flush with a non-empty buffer
  submits one update per stream to the datum collection and then updates the datum insert
  counters. The flush evaluates the attribute \<open>dump_sizes\<close> of the dumped dictionary:
  whenever the buffer is not empty it raises \<open>AttributeError\<close> after the dump, so the
  buffer is emptied, nothing is written to the volatile store and no counter changes.
\<close>

theorem datum_flush_raises:
  "\<not> empty_emb (datum_embedder s) \<longrightarrow>
     datum_flush s =
       (Inl (AttributeError ''dump_sizes''), s\<lparr>datum_embedder := snd (dump (datum_embedder s))\<rparr>) \<and>
     datum_worker_body bson_size elapsed (Some Stop) s =
       (Inl (AttributeError ''dump_sizes''), s\<lparr>datum_embedder := snd (dump (datum_embedder s))\<rparr>) \<and>
     volatile_db (snd (datum_flush s)) = volatile_db s \<and>
     heap (snd (datum_flush s)) = heap s \<and>
     datum_count (snd (datum_flush s)) = datum_count s \<and>
     empty_emb (datum_embedder (snd (datum_flush s)))"
  by (auto simp: datum_flush_def datum_worker_body_def seq_def dict_attributes_def Let_def
      dump_def empty_emb_def split: prod.splits)

theorem datum_flush_raises_witness:
  "\<not> empty_emb (datum_embedder ex_datum_state) \<and>
   datum_worker_body (\<lambda>d. 100) False (Some Stop) ex_datum_state =
     (Inl (AttributeError ''dump_sizes''), ex_serializer) \<and>
   snd (datum_worker_body (\<lambda>d. 100) False None
          (ex_serializer\<lparr>datum_queue := [Doc (ex_datum ''0''), Stop]\<rparr>)) =
     ex_datum_state\<lparr>datum_queue := [Stop]\<rparr> \<and>
   datum_worker_body (\<lambda>d. 100) False None (ex_datum_state\<lparr>datum_queue := [Stop]\<rparr>) =
     (Inl (AttributeError ''dump_sizes''), ex_serializer)"
proof -
  have 1: "\<not> empty_emb (datum_embedder ex_datum_state)" by code_simp
  have 2: "ex_datum_state\<lparr>datum_embedder := snd (dump (datum_embedder ex_datum_state))\<rparr> = ex_serializer"
    by code_simp
  have 3: "snd (datum_worker_body (\<lambda>d. 100) False None
          (ex_serializer\<lparr>datum_queue := [Doc (ex_datum ''0''), Stop]\<rparr>)) =
     ex_datum_state\<lparr>datum_queue := [Stop]\<rparr>" by code_simp
  have 4: "datum_worker_body (\<lambda>d. 100) False None (ex_datum_state\<lparr>datum_queue := [Stop]\<rparr>) =
     (Inl (AttributeError ''dump_sizes''), ex_serializer)" by code_simp
  from datum_flush_raises [of ex_datum_state "\<lambda>d. 100" False] 1 2
  have "datum_worker_body (\<lambda>d. 100) False (Some Stop) ex_datum_state =
     (Inl (AttributeError ''dump_sizes''), ex_serializer)" by simp
  then show ?thesis using 1 3 4 by blast
qed

section \<open>Properties of the Staged-Commit Controller\<close>

lemma not_io_simps [simp]:
  "not_io WriteError" "not_io (KeyError k)" "not_io (TypeError t)" "not_io (RuntimeError m c)"
  "not_io DuplicateKeyError" "not_io AssertionError" "not_io OperationFailure"
  "\<not> not_io integrity_error"
  by (simp_all add: not_io_def integrity_error_def)

lemma modify_not_io: "modify m x = Inl e \<Longrightarrow> e = WriteError"
  by (cases "(m, x)" rule: modify.cases) auto

lemma upd_path_not_io: "upd_path ks m d = Inl e \<Longrightarrow> e = WriteError"
  by (induction ks m d rule: upd_path.induct)
     (auto dest: modify_not_io split: sum.splits option.splits val.splits)

lemma apply_update_not_io: "apply_update u d = Inl e \<Longrightarrow> e = WriteError"
  by (induction u d rule: apply_update.induct)
     (auto dest: upd_path_not_io split: sum.splits if_splits)

lemma update_first_not_io: "update_first q u ds = Some (Inl e) \<Longrightarrow> e = WriteError"
  by (induction ds) (auto dest: apply_update_not_io split: sum.splits if_splits option.splits)

lemma update_one_not_io: "update_one q u b c = (Inl e, c') \<Longrightarrow> not_io e"
  by (auto simp: update_one_def dest: update_first_not_io apply_update_not_io
      split: option.splits sum.splits if_splits)

lemma set_header_not_io: "set_header name v s = (Inl e, s') \<Longrightarrow> not_io e"
  by (auto simp: set_header_def dest: update_one_not_io split: prod.splits)

lemma insert_header_not_io: "insert_header name v s = (Inl e, s') \<Longrightarrow> not_io e"
  by (auto simp: insert_header_def dest: update_one_not_io split: prod.splits)

lemma find_all_not_io: "find_all key c xs = Inl e \<Longrightarrow> not_io e"
  by (induction xs) (auto simp: get_uid_def split: sum.splits val.splits option.splits)

lemma pages_under_not_io: "pages_under name key c hdr = Inl e \<Longrightarrow> not_io e"
  by (auto simp: pages_under_def iterate_def dest: find_all_not_io
      split: option.splits sum.splits val.splits)

lemma get_run_not_io: "get_run database uid = Inl e \<Longrightarrow> not_io e"
  by (auto simp: get_run_def dest: pages_under_not_io split: option.splits sum.splits)

lemma insert_one_not_io: "insert_one d c = (Inl e, c') \<Longrightarrow> not_io e"
  by (auto simp: insert_one_def split: option.splits if_splits)

lemma insert_run_not_io: "insert_run database r = (Inl e, x) \<Longrightarrow> not_io e"
  by (induction r arbitrary: database x)
     (auto dest: insert_one_not_io split: prod.splits sum.splits)

lemma remove_not_io: "remove q c = (Inl e, c') \<Longrightarrow> not_io e"
  by (auto simp: remove_def split: if_splits)

lemma remove_all_not_io: "remove_all key xs c = (Inl e, c') \<Longrightarrow> not_io e"
  by (induction xs arbitrary: c)
     (auto simp: get_uid_def dest: remove_not_io
      split: sum.splits val.splits option.splits prod.splits)

lemma remove_under_not_io: "remove_under name key hdr c = (Inl e, c') \<Longrightarrow> not_io e"
  by (auto simp: remove_under_def iterate_def dest: remove_all_not_io
      split: option.splits sum.splits val.splits)

lemma delete_run_not_io: "delete_run uid s = (Inl e, s') \<Longrightarrow> not_io e"
  by (auto simp: delete_run_def Let_def dest: remove_under_not_io remove_not_io
      split: option.splits sum.splits prod.splits)


lemma seq_Inl:
  "seq m f s = (Inl e, s') \<Longrightarrow> m s = (Inl e, s') \<or> (\<exists>x s1. m s = (Inr x, s1) \<and> f x s1 = (Inl e, s'))"
  by (auto simp: seq_def split: prod.splits sum.splits)

lemma freeze_prepare_not_io:
  assumes "freeze_prepare join s = Some (Inl e, s1)"
  shows "not_io e"
proof -
  from assms obtain s0 where
    "seq (\<lambda>s. set_header ''event_count'' (VInt (sum_list (map snd (event_count s)))) s)
            (\<lambda>_. seq (\<lambda>s. set_header ''datum_count'' (VInt (sum_list (map snd (datum_count s)))) s)
            (\<lambda>_ s. case worker_error s of
                      Some err \<Rightarrow> (Inl (RuntimeError ''Worker exception: '' (Some err)), s)
                    | None \<Rightarrow>
                        if event_queue s \<noteq> [] \<or> datum_queue s \<noteq> []
                           \<or> \<not> empty_emb (event_embedder s) \<or> \<not> empty_emb (datum_embedder s)
                        then (Inl AssertionError, s)
                        else insert_header ''stop'' (stop_doc s) s)) s0 = (Inl e, s1)"
    by (auto simp: freeze_prepare_def split: option.splits)
  from seq_Inl [OF this] show ?thesis
  proof (elim disjE exE conjE)
    assume "set_header ''event_count'' (VInt (sum_list (map snd (event_count s0)))) s0 = (Inl e, s1)"
    then show ?thesis by (auto dest: set_header_not_io)
  next
    fix x s2
    assume "seq (\<lambda>s. set_header ''datum_count'' (VInt (sum_list (map snd (datum_count s)))) s)
            (\<lambda>_ s. case worker_error s of
                      Some err \<Rightarrow> (Inl (RuntimeError ''Worker exception: '' (Some err)), s)
                    | None \<Rightarrow>
                        if event_queue s \<noteq> [] \<or> datum_queue s \<noteq> []
                           \<or> \<not> empty_emb (event_embedder s) \<or> \<not> empty_emb (datum_embedder s)
                        then (Inl AssertionError, s)
                        else insert_header ''stop'' (stop_doc s) s) s2 = (Inl e, s1)"
    from seq_Inl [OF this] show ?thesis
      by (auto dest: set_header_not_io insert_header_not_io split: option.splits if_splits)
  qed
qed

lemma freeze_copy_io:
  assumes "freeze_copy uid s1 = (Inl integrity_error, s')"
  shows "volatile_db s' = volatile_db s1 \<and>
    (\<exists>fetched pdb volatile_run permanent_run.
        get_run (volatile_db s1) uid = Inr fetched \<and>
        insert_run (permanent_db s1) fetched = (Inr (), pdb, volatile_run) \<and>
        get_run pdb uid = Inr permanent_run \<and> \<not> run_eq volatile_run permanent_run \<and>
        s' = s1\<lparr>permanent_db := pdb\<rparr>)"
proof (cases "get_run (volatile_db s1) uid")
  case (Inl e)
  then show ?thesis using assms get_run_not_io [OF Inl] by (auto simp: freeze_copy_def)
next
  case (Inr fetched)
  obtain r pdb volatile_run where ir: "insert_run (permanent_db s1) fetched = (r, pdb, volatile_run)"
    by (cases "insert_run (permanent_db s1) fetched") auto
  show ?thesis
  proof (cases r)
    case (Inl e)
    then show ?thesis using assms Inr ir insert_run_not_io [of "permanent_db s1" fetched e "(pdb, volatile_run)"]
      by (auto simp: freeze_copy_def)
  next
    case r: (Inr u)
    show ?thesis
    proof (cases "get_run pdb uid")
      case (Inl e)
      then show ?thesis using assms Inr ir r get_run_not_io [OF Inl]
        by (auto simp: freeze_copy_def Let_def)
    next
      case pr: (Inr permanent_run)
      show ?thesis
      proof (cases "run_eq volatile_run permanent_run")
        case True
        then have "delete_run uid (s1\<lparr>permanent_db := pdb\<rparr>) = (Inl integrity_error, s')"
          using assms Inr ir r pr by (simp add: freeze_copy_def Let_def)
        from delete_run_not_io [OF this] show ?thesis by simp
      next
        case False
        then show ?thesis using assms Inr ir r pr by (auto simp: freeze_copy_def Let_def)
      qed
    qed
  qed
qed

lemma freeze_copy_mismatch:
  assumes "get_run (volatile_db s1) uid = Inr fetched"
    and "insert_run (permanent_db s1) fetched = (Inr (), pdb, volatile_run)"
    and "get_run pdb uid = Inr permanent_run" and "\<not> run_eq volatile_run permanent_run"
  shows "freeze_copy uid s1 = (Inl integrity_error, s1\<lparr>permanent_db := pdb\<rparr>)"
  using assms by (simp add: freeze_copy_def Let_def)

text \<open>
  Claim C1 (freeze safety on mismatch). When \<open>freeze\<close> has reached the copy step and
  the run read back from the permanent store is not equal to the run read from the volatile
  store, \<open>freeze\<close> raises the integrity error and the volatile store is what it was
  before the copy: nothing is deleted. Conversely, whenever \<open>freeze\<close> raises the
  integrity error, the volatile store is the one the copy step started from and the run
  can still be read from it.
\<close>

theorem freeze_mismatch_keeps_volatile:
  "(freeze_prepare join s = Some (Inr (), s1) \<and>
    get_run (volatile_db s1) uid = Inr fetched \<and>
    insert_run (permanent_db s1) fetched = (Inr (), pdb, volatile_run) \<and>
    get_run pdb uid = Inr permanent_run \<and>
    \<not> run_eq volatile_run permanent_run \<longrightarrow>
      freeze join uid s = Some (Inl integrity_error, s1\<lparr>permanent_db := pdb\<rparr>) \<and>
      volatile_db (s1\<lparr>permanent_db := pdb\<rparr>) = volatile_db s1) \<and>
   (freeze join uid s = Some (Inl integrity_error, s') \<longrightarrow>
      (\<exists>s1 fetched. freeze_prepare join s = Some (Inr (), s1) \<and>
         volatile_db s' = volatile_db s1 \<and>
         get_run (volatile_db s') uid = Inr fetched))"
proof (intro conjI impI)
  assume h: "freeze_prepare join s = Some (Inr (), s1) \<and>
    get_run (volatile_db s1) uid = Inr fetched \<and>
    insert_run (permanent_db s1) fetched = (Inr (), pdb, volatile_run) \<and>
    get_run pdb uid = Inr permanent_run \<and>
    \<not> run_eq volatile_run permanent_run"
  then have "freeze_copy uid s1 = (Inl integrity_error, s1\<lparr>permanent_db := pdb\<rparr>)"
    by (intro freeze_copy_mismatch) auto
  then show "freeze join uid s = Some (Inl integrity_error, s1\<lparr>permanent_db := pdb\<rparr>)"
    using h by (simp add: freeze_def)
  show "volatile_db (s1\<lparr>permanent_db := pdb\<rparr>) = volatile_db s1" by simp
next
  assume f: "freeze join uid s = Some (Inl integrity_error, s')"
  then obtain r s1 where p: "freeze_prepare join s = Some (r, s1)"
    by (cases "freeze_prepare join s") (auto simp: freeze_def)
  show "\<exists>s1 fetched. freeze_prepare join s = Some (Inr (), s1) \<and>
         volatile_db s' = volatile_db s1 \<and>
         get_run (volatile_db s') uid = Inr fetched"
  proof (cases r)
    case (Inl e)
    then have "e = integrity_error" using f p by (simp add: freeze_def)
    then show ?thesis using freeze_prepare_not_io [of join s e s1] p Inl by simp
  next
    case (Inr u)
    then have "freeze_copy uid s1 = (Inl integrity_error, s')" using f p by (simp add: freeze_def)
    from freeze_copy_io [OF this] show ?thesis using p Inr by auto
  qed
qed


theorem freeze_mismatch_keeps_volatile_witness:
  "freeze_prepare ex_join ex_stale_state = Some (Inr (), ex_prepared) \<and>
   get_run (volatile_db ex_prepared) (VStr ''run1'') = Inr ex_fetched \<and>
   \<not> run_eq ex_fetched (projr (get_run ex_copied (VStr ''run1''))) \<and>
   freeze ex_join (VStr ''run1'') ex_stale_state =
     Some (Inl integrity_error, ex_prepared\<lparr>permanent_db := ex_copied\<rparr>) \<and>
   (\<exists>fetched. get_run (volatile_db (ex_prepared\<lparr>permanent_db := ex_copied\<rparr>)) (VStr ''run1'')
        = Inr fetched) \<and>
   length (docs (header_c (volatile_db (ex_prepared\<lparr>permanent_db := ex_copied\<rparr>)))) = 1"
proof -
  let ?prun = "projr (get_run ex_copied (VStr ''run1''))"
  have 1: "freeze_prepare ex_join ex_stale_state = Some (Inr (), ex_prepared)" by code_simp
  have 2: "get_run (volatile_db ex_prepared) (VStr ''run1'') = Inr ex_fetched" by code_simp
  have 3: "insert_run (permanent_db ex_prepared) ex_fetched = (Inr (), ex_copied, ex_fetched)"
    by code_simp
  have 4: "get_run ex_copied (VStr ''run1'') = Inr ?prun" by code_simp
  have 5: "\<not> run_eq ex_fetched ?prun" by code_simp
  have 6: "length (docs (header_c (volatile_db (ex_prepared\<lparr>permanent_db := ex_copied\<rparr>)))) = 1"
    by code_simp
  note t = freeze_mismatch_keeps_volatile [where join = ex_join and s = ex_stale_state
      and ?s1.0 = ex_prepared and uid = "VStr ''run1''" and fetched = ex_fetched and pdb = ex_copied
      and volatile_run = ex_fetched and permanent_run = ?prun
      and s' = "ex_prepared\<lparr>permanent_db := ex_copied\<rparr>"]
  have a: "freeze ex_join (VStr ''run1'') ex_stale_state =
     Some (Inl integrity_error, ex_prepared\<lparr>permanent_db := ex_copied\<rparr>)"
    using t [THEN conjunct1] 1 2 3 4 5 by blast
  have b: "\<exists>fetched. get_run (volatile_db (ex_prepared\<lparr>permanent_db := ex_copied\<rparr>)) (VStr ''run1'')
        = Inr fetched"
    using t [THEN conjunct2] a by blast
  show ?thesis using 1 2 5 6 a b by blast
qed

section \<open>Properties of the sticky worker error\<close>












lemma add_db_event_counts_werr [simp]:
  "worker_error (snd (add_db_event_counts buf s)) = worker_error s"
  by (induction buf s rule: add_db_event_counts.induct) (auto split: val.splits)

lemma datum_operations_werr [simp]:
  "worker_error (snd (datum_operations buf sizes s)) = worker_error s"
proof (induction buf arbitrary: s)
  case Nil
  then show ?case by simp
next
  case (Cons a buf)
  obtain k p where a: "a = (k, p)" by (cases a)
  show ?case
  proof (cases "map_of sizes k")
    case None
    then show ?thesis using a by simp
  next
    case (Some sz)
    obtain u s1 where u: "updateone_datumpage k p sz s = (u, s1)"
      by (cases "updateone_datumpage k p sz s")
    then have "worker_error s1 = worker_error s"
      by (auto simp: updateone_datumpage_def Let_def)
    then show ?thesis using a Some u Cons.IH [of s1]
      by (auto split: prod.splits sum.splits)
  qed
qed

lemma bulkwrite_datum_werr [simp]:
  "worker_error (snd (bulkwrite_datum buf a s)) = worker_error s"
proof (cases a)
  case None
  then show ?thesis by (simp add: bulkwrite_datum_def)
next
  case (Some sizes)
  obtain r s1 where r: "datum_operations buf sizes s = (r, s1)"
    by (cases "datum_operations buf sizes s")
  then have "worker_error s1 = worker_error s"
    using datum_operations_werr [of buf sizes s] by simp
  then show ?thesis using Some r
    by (cases r) (auto simp: bulkwrite_datum_def split: prod.splits)
qed

lemma add_db_datum_counts_werr [simp]:
  "worker_error (snd (add_db_datum_counts buf s)) = worker_error s"
  by (induction buf s rule: add_db_datum_counts.induct) (auto split: val.splits)


























lemma ex_exited_error:
  "worker_error (ex_event_failed\<lparr>frozen := True, event_queue := [Stop],
               datum_queue := [Doc ex_bad_datum, Stop]\<rparr>) = Some (KeyError ''descriptor'')"
  by code_simp



section \<open>Properties of the Count Aggregator\<close>

text \<open>
  Claim C9 (header update on every increase). The claim asks for a header update on every
  wake at which the totals have grown since the last update. After its first update the
  count worker holds the counter dictionaries themselves as the last values, so the
  comparison is of a dictionary with itself: no later wake updates the header. In the run
  below the total grows from 1 to 3 between two wakes and the header keeps the count 1.
\<close>

theorem count_worker_stops_updating:
  "count_worker_body (db_event_count s, db_datum_count s) s =
     (Inr (db_event_count s, db_datum_count s), s) \<and>
   fst (count_worker_start (snd (start ex_start ex_serializer))) = (2, 3) \<and>
   total ex_counting (db_event_count ex_counting) = 1 \<and>
   fst (count_worker_body (2, 3) ex_counting) = Inr (0, 1) \<and>
   map (\<lambda>d. map_of d ''count_d1'')
     (docs (header_c (volatile_db (snd (count_worker_body (2, 3) ex_counting))))) = [Some (VInt 1)] \<and>
   total ex_counting_later (db_event_count ex_counting_later) = 3 \<and>
   count_worker_body (0, 1) ex_counting_later = (Inr (0, 1), ex_counting_later) \<and>
   map (\<lambda>d. map_of d ''count_d1'') (docs (header_c (volatile_db ex_counting_later))) = [Some (VInt 1)]"
proof (intro conjI)
  show "count_worker_body (db_event_count s, db_datum_count s) s =
     (Inr (db_event_count s, db_datum_count s), s)"
    by (simp add: count_worker_body_def)
qed (code_simp+)

end
